theory Spec2Isabelle
  imports Main "HOL-Library.Word"
begin

unbundle bit_operations_syntax

section \<open>The DATA codec of celeste-converter-go\<close>

text \<open>
  The embedding follows \<^verbatim>\<open>pkg/converter/graphics_converter.go\<close>. An \<^verbatim>\<open>io.Reader\<close> is the
  list of bytes that have not been read yet (the readers the program uses are files and
  in-memory buffers); every read returns its result together with the rest of the
  stream. Go's \<^verbatim>\<open>error\<close> results are values of the type \<open>error\<close>.
\<close>

subsection \<open>Readers\<close>

type_synonym byte = "8 word"

type_synonym reader = "byte list"

datatype error = EOF | ErrUnexpectedEOF | InvalidDimensions | FormatError

text \<open>
  \<^verbatim>\<open>input.Read(buf[:])\<close> on a one-byte buffer: one byte when the stream has one,
  \<^verbatim>\<open>io.EOF\<close> at the end of the stream.
\<close>

definition Read1 :: "reader \<Rightarrow> (error + byte) \<times> reader" where
  "Read1 input = (case input of [] \<Rightarrow> (Inl EOF, []) | b # rest \<Rightarrow> (Inr b, rest))"

text \<open>
  \<^verbatim>\<open>io.ReadFull(input, buf)\<close> for a buffer of \<open>n > 0\<close> bytes: the \<open>n\<close> bytes when the
  stream has them; \<^verbatim>\<open>io.EOF\<close> when no byte could be read; \<^verbatim>\<open>io.ErrUnexpectedEOF\<close> when
  the stream ended after some but not all of them (the bytes that were there are consumed).
\<close>

definition ReadFull :: "nat \<Rightarrow> reader \<Rightarrow> (error + byte list) \<times> reader" where
  "ReadFull n input =
     (if n \<le> length input then (Inr (take n input), drop n input)
      else if input = [] then (Inl EOF, [])
      else (Inl ErrUnexpectedEOF, []))"

text \<open>\<^verbatim>\<open>binary.LittleEndian.Uint32\<close> on a four-byte buffer.\<close>

definition LittleEndian_Uint32 :: "byte list \<Rightarrow> 32 word" where
  "LittleEndian_Uint32 b =
     ucast (b ! 0) OR push_bit 8 (ucast (b ! 1)) OR push_bit 16 (ucast (b ! 2))
       OR push_bit 24 (ucast (b ! 3))"

text \<open>
  \<^verbatim>\<open>binary.Read(input, binary.LittleEndian, &v)\<close> for an \<^verbatim>\<open>int32\<close>: four bytes through
  \<^verbatim>\<open>io.ReadFull\<close>; the value is kept as a 32-bit word and read as signed by \<open>sint\<close>.
\<close>

definition binary_Read_int32 :: "reader \<Rightarrow> (error + 32 word) \<times> reader" where
  "binary_Read_int32 input =
     (case ReadFull 4 input of
        (Inl e, rd) \<Rightarrow> (Inl e, rd)
      | (Inr bs, rd) \<Rightarrow> (Inr (LittleEndian_Uint32 bs), rd))"

subsection \<open>The canvas: \<^verbatim>\<open>image.RGBA\<close>\<close>

datatype RGBA = RGBA (R: byte) (G: byte) (B: byte) (A: byte)

text \<open>
  An \<^verbatim>\<open>*image.RGBA\<close> with rectangle \<open>(0, 0) - (Dx, Dy)\<close>: the pixels in row-major order,
  one entry of \<open>Pix\<close> per pixel (the four bytes of a pixel are one \<open>RGBA\<close> value).
\<close>

record canvas =
  Dx :: nat
  Dy :: nat
  Pix :: "RGBA list"

definition NewRGBA :: "nat \<Rightarrow> nat \<Rightarrow> canvas" where
  "NewRGBA w h = \<lparr>Dx = w, Dy = h, Pix = replicate (w * h) (RGBA 0 0 0 0)\<rparr>"

text \<open>\<^verbatim>\<open>SetRGBA\<close> ignores a point outside the rectangle.\<close>

definition SetRGBA :: "canvas \<Rightarrow> nat \<Rightarrow> nat \<Rightarrow> RGBA \<Rightarrow> canvas" where
  "SetRGBA img x y c =
     (if x < Dx img \<and> y < Dy img then img\<lparr>Pix := (Pix img)[y * Dx img + x := c]\<rparr>
      else img)"

subsection \<open>Decoding: \<^verbatim>\<open>DataToPng\<close>\<close>

text \<open>The two nested loops that fill a new canvas with the default colour of the mode.\<close>

definition init_canvas :: "bool \<Rightarrow> canvas \<Rightarrow> canvas" where
  "init_canvas hasAlpha img =
     fold (\<lambda>y im. fold (\<lambda>x im'.
             if hasAlpha then SetRGBA im' x y (RGBA 0 0 0 0)
             else SetRGBA im' x y (RGBA 0 0 0 255)) [0..<Dx img] im)
          [0..<Dy img] img"

text \<open>
  The reads of one iteration of the body loop: the count byte (0 stands for 256), then
  the alpha byte and the colour bytes of the mode. \<open>Inl e\<close> is the error of the read that
  failed; the loop breaks on \<open>EOF\<close> and returns any other error.
\<close>

definition read_run :: "bool \<Rightarrow> reader \<Rightarrow> (error + nat \<times> RGBA) \<times> reader" where
  "read_run hasAlpha input =
     (case Read1 input of
        (Inl e, rd) \<Rightarrow> (Inl e, rd)
      | (Inr countByte, rd1) \<Rightarrow>
          let count = (if unat countByte = 0 then 256 else unat countByte) in
          if hasAlpha then
            (case Read1 rd1 of
               (Inl e, rd) \<Rightarrow> (Inl e, rd)
             | (Inr a, rd2) \<Rightarrow>
                 if a \<noteq> 0 then
                   (case ReadFull 3 rd2 of
                      (Inl e, rd) \<Rightarrow> (Inl e, rd)
                    | (Inr rgbBuf, rd3) \<Rightarrow>
                        (Inr (count, RGBA (rgbBuf ! 2) (rgbBuf ! 1) (rgbBuf ! 0) a), rd3))
                 else (Inr (count, RGBA 0 0 0 a), rd2))
          else
            (case ReadFull 3 rd1 of
               (Inl e, rd) \<Rightarrow> (Inl e, rd)
             | (Inr rgbBuf, rd3) \<Rightarrow>
                 (Inr (count, RGBA (rgbBuf ! 2) (rgbBuf ! 1) (rgbBuf ! 0) 255), rd3)))"

text \<open>The coordinates the inner loop computes for a run of \<open>count\<close> pixels at cursor \<open>i\<close>.\<close>

definition run_coords :: "nat \<Rightarrow> nat \<Rightarrow> nat \<Rightarrow> (nat \<times> nat) list" where
  "run_coords width i count = map (\<lambda>j. ((i + j) mod width, (i + j) div width)) [0..<count]"

definition paint :: "canvas \<Rightarrow> nat \<Rightarrow> nat \<Rightarrow> RGBA \<Rightarrow> canvas" where
  "paint img i count c = fold (\<lambda>(x, y) im. SetRGBA im x y c) (run_coords (Dx img) i count) img"

text \<open>
  The state of the body loop: the cursor \<open>i\<close>, the canvas and the unread input. The field
  \<open>writes\<close> is not in the program: it records the coordinates of every call of
  \<^verbatim>\<open>SetRGBA\<close> the loop makes, in order.
\<close>

record dstate =
  cursor :: nat
  img :: canvas
  input :: reader
  writes :: "(nat \<times> nat) list"

function decode_loop :: "nat \<Rightarrow> bool \<Rightarrow> dstate \<Rightarrow> error option \<times> dstate" where
  "decode_loop npix hasAlpha st =
     (if cursor st < npix then
        (case read_run hasAlpha (input st) of
           (Inl e, rd) \<Rightarrow>
             if e = EOF then (None, st\<lparr>input := rd\<rparr>) else (Some e, st\<lparr>input := rd\<rparr>)
         | (Inr (count, c), rd) \<Rightarrow>
             let pixelsLeft = npix - cursor st;
                 count' = (if count > pixelsLeft then pixelsLeft else count)
             in decode_loop npix hasAlpha
                  \<lparr>cursor = cursor st + count',
                   img = paint (img st) (cursor st) count' c,
                   input = rd,
                   writes = writes st @ run_coords (Dx (img st)) (cursor st) count'\<rparr>)
      else (None, st))"
  by pat_completeness auto

lemma read_run_count_pos: "read_run hasAlpha rd = (Inr (count, c), rd') \<Longrightarrow> 0 < count"
  by (auto simp: read_run_def Let_def split: prod.splits sum.splits if_splits)

lemma decode_loop_dom_all: "All decode_loop_dom"
  by (relation "measure (\<lambda>(npix, hasAlpha, st). npix - cursor st)")
     (auto dest: read_run_count_pos [OF sym])

termination decode_loop
  by (rule decode_loop_dom_all)

declare decode_loop.simps [simp del]

text \<open>
  \<^verbatim>\<open>DataToPng\<close> up to the call of \<^verbatim>\<open>png.Encode\<close>: the error the function returns before
  that call, if any, together with the final state of the loop, whose field \<open>img\<close> is the
  canvas handed to the PNG encoder (when the function returns before the loop: the unread
  input, with an empty canvas). The loop bound \<^verbatim>\<open>int(width*height)\<close> is a product of two
  \<^verbatim>\<open>int32\<close>.
\<close>

definition DataToPng_state :: "reader \<Rightarrow> error option \<times> dstate" where
  "DataToPng_state rd0 =
     (case binary_Read_int32 rd0 of
        (Inl e, rd) \<Rightarrow> (Some e, \<lparr>cursor = 0, img = NewRGBA 0 0, input = rd, writes = []\<rparr>)
      | (Inr width, rd1) \<Rightarrow>
     (case binary_Read_int32 rd1 of
        (Inl e, rd) \<Rightarrow> (Some e, \<lparr>cursor = 0, img = NewRGBA 0 0, input = rd, writes = []\<rparr>)
      | (Inr height, rd2) \<Rightarrow>
     (case binary_Read_int32 rd2 of
        (Inl e, rd) \<Rightarrow> (Some e, \<lparr>cursor = 0, img = NewRGBA 0 0, input = rd, writes = []\<rparr>)
      | (Inr alphaFlag, rd3) \<Rightarrow>
          let hasAlpha = (alphaFlag \<noteq> 0) in
          if sint width \<le> 0 \<or> sint height \<le> 0 \<or> sint width > 8192 \<or> sint height > 8192
          then (Some InvalidDimensions,
                \<lparr>cursor = 0, img = NewRGBA 0 0, input = rd3, writes = []\<rparr>)
          else
            let canvas0 = init_canvas hasAlpha (NewRGBA (nat (sint width)) (nat (sint height)))
            in decode_loop (nat (sint (width * height))) hasAlpha
                 \<lparr>cursor = 0, img = canvas0, input = rd3, writes = []\<rparr>)))"

subsection \<open>The PNG written: \<^verbatim>\<open>png.Encode\<close>\<close>

text \<open>
  The last statement of \<^verbatim>\<open>DataToPng\<close> is \<^verbatim>\<open>return png.Encode(output, img)\<close>, of the package
  \<^verbatim>\<open>image/png\<close> of the standard library, on the \<^verbatim>\<open>*image.RGBA\<close> canvas. A PNG file is given
  here by what it stores: its size and its pixels in row-major order. PNG compression is
  lossless, so these are the values a PNG decoder finds in the file. The encoder picks one
  of two colour types for an \<^verbatim>\<open>*image.RGBA\<close>: \<^verbatim>\<open>cbTC8\<close> (8-bit truecolour, three bytes
  \<open>(r, g, b)\<close> per pixel) when the image is opaque, that is when every alpha byte is
  \<^verbatim>\<open>0xff\<close>; \<^verbatim>\<open>cbTCA8\<close> (8-bit truecolour with alpha, four bytes \<open>(r, g, b, a)\<close> per pixel)
  otherwise.
\<close>

datatype png_data =
  cbTC8 "(byte \<times> byte \<times> byte) list"
  | cbTCA8 "(byte \<times> byte \<times> byte \<times> byte) list"

record png =
  png_width :: nat
  png_height :: nat
  png_data :: png_data

text \<open>
  The colours of an \<^verbatim>\<open>image.RGBA\<close> are premultiplied by alpha; those of a PNG are not. For
  \<^verbatim>\<open>cbTCA8\<close> the encoder converts every pixel as \<^verbatim>\<open>color.NRGBAModel\<close> does: alpha \<^verbatim>\<open>0xff\<close>
  keeps the pixel, alpha 0 gives \<open>(0, 0, 0, 0)\<close>, and otherwise each colour channel \<open>c\<close>
  becomes \<^verbatim>\<open>uint8(((c * 0x101) * 0xffff / (a * 0x101)) >> 8)\<close>. The arithmetic is that of
  \<^verbatim>\<open>uint32\<close> (the product is at most \<^verbatim>\<open>0xffff * 0xffff\<close>, so it does not wrap), the
  division truncates, and the conversion to \<^verbatim>\<open>uint8\<close> keeps the low eight bits.
\<close>

definition unpremultiply :: "byte \<Rightarrow> byte \<Rightarrow> byte" where
  "unpremultiply c a =
     (let r = (ucast c :: 32 word) * 0x101;
          a32 = (ucast a :: 32 word) * 0x101
      in ucast (drop_bit 8 ((r * 0xffff) div a32)))"

definition NRGBAModel_Convert :: "RGBA \<Rightarrow> byte \<times> byte \<times> byte \<times> byte" where
  "NRGBAModel_Convert c =
     (if A c = 0xff then (R c, G c, B c, 0xff)
      else if A c = 0 then (0, 0, 0, 0)
      else (unpremultiply (R c) (A c), unpremultiply (G c) (A c), unpremultiply (B c) (A c),
            A c))"

text \<open>
  \<^verbatim>\<open>png.Encode\<close> on a canvas, to a writer that does not fail. An image without pixels, or
  with a side of \<open>2^32\<close> pixels or more, is refused with a \<^verbatim>\<open>png.FormatError\<close>.
\<close>

definition png_Encode :: "canvas \<Rightarrow> error + png" where
  "png_Encode m =
     (if Dx m = 0 \<or> Dy m = 0 \<or> int (Dx m) \<ge> 2 ^ 32 \<or> int (Dy m) \<ge> 2 ^ 32
      then Inl FormatError
      else if list_all (\<lambda>c. A c = 0xff) (Pix m)
      then Inr \<lparr>png_width = Dx m, png_height = Dy m,
                png_data = cbTC8 (map (\<lambda>c. (R c, G c, B c)) (Pix m))\<rparr>
      else Inr \<lparr>png_width = Dx m, png_height = Dy m,
                png_data = cbTCA8 (map NRGBAModel_Convert (Pix m))\<rparr>)"

text \<open>\<^verbatim>\<open>DataToPng\<close>: the error it returns, or the PNG it writes to \<^verbatim>\<open>output\<close>.\<close>

definition DataToPng :: "reader \<Rightarrow> error + png" where
  "DataToPng rd0 =
     (case DataToPng_state rd0 of
        (Some e, st) \<Rightarrow> Inl e
      | (None, st) \<Rightarrow> png_Encode (img st))"

subsection \<open>Encoding: \<^verbatim>\<open>PngToData\<close>\<close>

text \<open>
  The image \<^verbatim>\<open>png.Decode\<close> returns is an \<^verbatim>\<open>image.Image\<close>: a concrete type (the type switch
  of \<^verbatim>\<open>hasAlphaChannel\<close> looks at it), bounds, and a colour at every point. The bounds of a
  decoded PNG start at \<open>(0, 0)\<close>, so they are given by their width and height. A colour is
  given by the four channel values its method \<^verbatim>\<open>RGBA()\<close> returns: \<^verbatim>\<open>uint32\<close> values
  within \<open>[0, 0xffff]\<close>, kept here as 16-bit words.
\<close>

datatype image_kind =
  image_RGBA | image_NRGBA | image_RGBA64 | image_NRGBA64 | image_Gray | image_Gray16
  | image_Paletted

type_synonym color16 = "16 word \<times> 16 word \<times> 16 word \<times> 16 word"

record Image =
  kind :: image_kind
  img_width :: nat
  img_height :: nat
  At :: "nat \<Rightarrow> nat \<Rightarrow> color16"

definition getRGBA :: "Image \<Rightarrow> nat \<Rightarrow> nat \<Rightarrow> RGBA" where
  "getRGBA im x y =
     (case At im x y of (r16, g16, b16, a16) \<Rightarrow>
        RGBA (ucast (drop_bit 8 r16)) (ucast (drop_bit 8 g16)) (ucast (drop_bit 8 b16))
             (ucast (drop_bit 8 a16)))"

text \<open>
  \<^verbatim>\<open>hasAlphaChannel\<close>: for the two types of the switch, the nested loops return true at the
  first pixel whose alpha is below \<^verbatim>\<open>0xffff\<close>; every other type gives false.
\<close>

definition hasAlphaChannel :: "Image \<Rightarrow> bool" where
  "hasAlphaChannel im =
     (if kind im = image_RGBA \<or> kind im = image_NRGBA then
        list_ex (\<lambda>y. list_ex (\<lambda>x. case At im x y of (r16, g16, b16, a16) \<Rightarrow> a16 < 0xffff)
                          [0..<img_width im])
                [0..<img_height im]
      else False)"

text \<open>
  The look-ahead loop: \<open>count\<close> pixels from the cursor \<open>i\<close> on are known to have the
  colour \<open>c\<close> of the pixel at \<open>i\<close>.
\<close>

function run_length :: "Image \<Rightarrow> RGBA \<Rightarrow> nat \<Rightarrow> nat \<Rightarrow> nat" where
  "run_length im c i count =
     (if i + count \<ge> img_width im * img_height im then count
      else if c \<noteq> getRGBA im ((i + count) mod img_width im) ((i + count) div img_width im)
      then count
      else if count + 1 \<ge> 256 then 256
      else run_length im c i (count + 1))"
  by pat_completeness auto

lemma run_length_dom_all: "All run_length_dom"
  by (relation "measure (\<lambda>(im, c, i, count). img_width im * img_height im - (i + count))")
     auto

termination run_length
  by (rule run_length_dom_all)

declare run_length.simps [simp del]

lemma run_length_ge: "count \<le> 256 \<Longrightarrow> count \<le> run_length im c i count"
proof (induction im c i count rule: run_length.induct)
  case (1 im c i count)
  then show ?case by (subst run_length.simps) auto
qed

text \<open>
  The body loop. Each entry of the result is one iteration: the cursor, and the bytes the
  iteration writes (the count byte, then the pixel bytes of the mode). The stream written
  is the concatenation of these bytes.
\<close>

function encode_loop :: "Image \<Rightarrow> bool \<Rightarrow> nat \<Rightarrow> (nat \<times> byte list) list" where
  "encode_loop im hasAlpha i =
     (if i < img_width im * img_height im then
        let c = getRGBA im (i mod img_width im) (i div img_width im);
            count = run_length im c i 1;
            countByte = (if count = 256 then 0 else of_nat count);
            pixel = (if hasAlpha then (if A c \<noteq> 0 then [A c, B c, G c, R c] else [A c])
                     else [B c, G c, R c])
        in (i, countByte # pixel) # encode_loop im hasAlpha (i + count)
      else [])"
  by pat_completeness auto

lemma encode_loop_dom_all: "All encode_loop_dom"
proof (relation "measure (\<lambda>(im, hasAlpha, i). img_width im * img_height im - i)")
  show "wf (measure (\<lambda>(im, hasAlpha, i). img_width im * img_height im - i))" by simp
next
  fix im :: Image and hasAlpha :: bool and i c count
  assume "i < img_width im * img_height im" and "count = run_length im c i 1"
  then show "((im, hasAlpha, i + count), (im, hasAlpha, i))
               \<in> measure (\<lambda>(im, hasAlpha, i). img_width im * img_height im - i)"
    using run_length_ge [of 1 im c i] by simp
qed

termination encode_loop
  by (rule encode_loop_dom_all)

declare encode_loop.simps [simp del]

text \<open>\<^verbatim>\<open>binary.Write\<close> of an \<^verbatim>\<open>int32\<close> in little-endian order.\<close>

definition LittleEndian_PutUint32 :: "32 word \<Rightarrow> byte list" where
  "LittleEndian_PutUint32 v =
     [ucast v, ucast (drop_bit 8 v), ucast (drop_bit 16 v), ucast (drop_bit 24 v)]"

text \<open>
  \<^verbatim>\<open>PngToData\<close> on the decoded image, writing to a writer that does not fail: the bytes
  written. \<^verbatim>\<open>int32(width)\<close> keeps the low 32 bits.
\<close>

definition PngToData :: "Image \<Rightarrow> byte list" where
  "PngToData im =
     (let hasAlpha = hasAlphaChannel im;
          alphaFlag = (if hasAlpha then 1 else 0)
      in LittleEndian_PutUint32 (of_nat (img_width im)) @
         LittleEndian_PutUint32 (of_nat (img_height im)) @
         LittleEndian_PutUint32 alphaFlag @
         concat (map snd (encode_loop im hasAlpha 0)))"

subsection \<open>Reading a PNG back: \<^verbatim>\<open>png.Decode\<close>\<close>

text \<open>
  \<^verbatim>\<open>png.Decode\<close> on a file of one of the two colour types above. A \<^verbatim>\<open>cbTC8\<close> file is
  decoded into an \<^verbatim>\<open>*image.RGBA\<close> whose alpha bytes are \<^verbatim>\<open>0xff\<close>, a \<^verbatim>\<open>cbTCA8\<close> file into
  an \<^verbatim>\<open>*image.NRGBA\<close>. The method \<^verbatim>\<open>RGBA()\<close> of a \<^verbatim>\<open>color.RGBA\<close> widens every channel
  \<open>c\<close> to \<^verbatim>\<open>c | c << 8\<close>; that of a \<^verbatim>\<open>color.NRGBA\<close> premultiplies: a colour channel is
  \<^verbatim>\<open>(c | c << 8) * a / 0xff\<close> and the alpha is \<^verbatim>\<open>a | a << 8\<close>, in \<^verbatim>\<open>uint32\<close> arithmetic
  with results below \<open>2^16\<close>. \<^verbatim>\<open>At\<close> gives the zero colour outside the bounds.
\<close>

definition widen :: "byte \<Rightarrow> 32 word" where
  "widen c = ucast c OR push_bit 8 (ucast c)"

definition premultiply :: "byte \<Rightarrow> byte \<Rightarrow> 16 word" where
  "premultiply c a = ucast ((widen c * ucast a) div 0xff)"

definition RGBA_RGBA :: "byte \<times> byte \<times> byte \<Rightarrow> color16" where
  "RGBA_RGBA c =
     (case c of (r, g, b) \<Rightarrow> (ucast (widen r), ucast (widen g), ucast (widen b), 0xffff))"

definition NRGBA_RGBA :: "byte \<times> byte \<times> byte \<times> byte \<Rightarrow> color16" where
  "NRGBA_RGBA c =
     (case c of (r, g, b, a) \<Rightarrow>
        (premultiply r a, premultiply g a, premultiply b a, ucast (widen a)))"

definition png_Decode :: "png \<Rightarrow> Image" where
  "png_Decode p =
     \<lparr>kind = (case png_data p of cbTC8 ps \<Rightarrow> image_RGBA | cbTCA8 ps \<Rightarrow> image_NRGBA),
      img_width = png_width p, img_height = png_height p,
      At = (\<lambda>x y. if x < png_width p \<and> y < png_height p then
                    (case png_data p of
                       cbTC8 ps \<Rightarrow> RGBA_RGBA (ps ! (y * png_width p + x))
                     | cbTCA8 ps \<Rightarrow> NRGBA_RGBA (ps ! (y * png_width p + x)))
                  else (0, 0, 0, 0))\<rparr>"

section \<open>The batch pipeline of celeste-converter-go\<close>

text \<open>
  The embedding follows \<^verbatim>\<open>convert\<close> of the files converter. What the function sees of its
  surroundings is a value of the type \<open>env\<close>: whether each call into the file system
  succeeds, whether the conversion function succeeds on a pair of files, and the path
  computations of \<^verbatim>\<open>path/filepath\<close>. The tasks work on different files, so the outcome of
  a call depends on its arguments only.
\<close>

record ConversionTask =
  index :: nat
  totalFiles :: nat
  relPath :: string
  inputPath :: string
  outputPath :: string

datatype batch_error =
  ScanFailed
  | CreateOutputDirFailed string
  | OpenInputFailed string
  | CreateOutputFailed string
  | ConvertFailed string

record env =
  MkdirAll :: "string \<Rightarrow> bool"
  Open :: "string \<Rightarrow> bool"
  Create :: "string \<Rightarrow> bool"
  convertFunc :: "string \<Rightarrow> string \<Rightarrow> bool"
  CloseInput :: "string \<Rightarrow> bool"
  CloseOutput :: "string \<Rightarrow> bool"
  Dir :: "string \<Rightarrow> string"
  inputPathOf :: "string \<Rightarrow> string"
  outputPathOf :: "string \<Rightarrow> string"

text \<open>
  The number of workers: \<^verbatim>\<open>NewFilesConverter\<close> takes the number of CPUs, at most 8, and
  \<^verbatim>\<open>SetMaxWorkers\<close> replaces it by a positive number only.
\<close>

definition NewFilesConverter :: "int \<Rightarrow> int" where
  "NewFilesConverter numCPU = (if numCPU > 8 then 8 else numCPU)"

definition SetMaxWorkers :: "int \<Rightarrow> int \<Rightarrow> int" where
  "SetMaxWorkers maxWorkers workers = (if workers > 0 then workers else maxWorkers)"

text \<open>The loop that fills the task queue: one task per file, numbered from 1.\<close>

definition make_tasks :: "env \<Rightarrow> string list \<Rightarrow> ConversionTask list" where
  "make_tasks e files =
     map (\<lambda>(i, rel). \<lparr>index = i + 1, totalFiles = length files, relPath = rel,
                       inputPath = inputPathOf e rel, outputPath = outputPathOf e rel\<rparr>)
         (enumerate 0 files)"

text \<open>
  The body of the worker's loop for one task. \<open>Captured err\<close>: the error is sent to the
  error channel and the worker continues with its loop. \<open>Completed\<close>: the file is converted
  and both files are closed. \<open>Returned\<close>: closing a file failed and the worker returns.
\<close>

datatype task_result = Captured batch_error | Completed | Returned

definition run_task :: "env \<Rightarrow> ConversionTask \<Rightarrow> task_result" where
  "run_task e task =
     (if \<not> MkdirAll e (Dir e (outputPath task))
      then Captured (CreateOutputDirFailed (Dir e (outputPath task)))
      else if \<not> Open e (inputPath task) then Captured (OpenInputFailed (inputPath task))
      else if \<not> Create e (outputPath task) then Captured (CreateOutputFailed (outputPath task))
      else if \<not> convertFunc e (inputPath task) (outputPath task)
      then Captured (ConvertFailed (relPath task))
      else if \<not> CloseInput e (inputPath task) then Returned
      else if \<not> CloseOutput e (outputPath task) then Returned
      else Completed)"

text \<open>
  A worker is at the head of its loop (about to receive from the task queue), or it holds a
  task, or it has left its loop (its \<^verbatim>\<open>wg.Done\<close> has run).
\<close>

datatype worker = Ranging | Running ConversionTask | Finished

text \<open>
  The state shared by the goroutines: the two channels (both buffered with room for every
  task, so that no send blocks) and the workers. The field \<open>processed\<close> is not in the
  program: it records every task a worker has dealt with, with the result, in order.
\<close>

record pool =
  taskQueue :: "ConversionTask list"
  errChan :: "batch_error list"
  workers :: "worker list"
  processed :: "(ConversionTask \<times> task_result) list"

text \<open>
  One step of worker \<open>w\<close>. At the head of its loop it receives the next task, or leaves the
  loop when the (closed) queue is empty. Holding a task it runs the body of the loop; the
  only effect of the body on the shared state is the send to the error channel.
\<close>

definition pool_step :: "env \<Rightarrow> nat \<Rightarrow> pool \<Rightarrow> pool" where
  "pool_step e w st =
     (if w < length (workers st) then
        (case workers st ! w of
           Ranging \<Rightarrow>
             (case taskQueue st of
                [] \<Rightarrow> st\<lparr>workers := (workers st)[w := Finished]\<rparr>
              | task # rest \<Rightarrow>
                  st\<lparr>taskQueue := rest, workers := (workers st)[w := Running task]\<rparr>)
         | Running task \<Rightarrow>
             (case run_task e task of
                Captured err \<Rightarrow>
                  st\<lparr>errChan := errChan st @ [err],
                     workers := (workers st)[w := Ranging],
                     processed := processed st @ [(task, Captured err)]\<rparr>
              | Completed \<Rightarrow>
                  st\<lparr>workers := (workers st)[w := Ranging],
                     processed := processed st @ [(task, Completed)]\<rparr>
              | Returned \<Rightarrow>
                  st\<lparr>workers := (workers st)[w := Finished],
                     processed := processed st @ [(task, Returned)]\<rparr>)
         | Finished \<Rightarrow> st)
      else st)"

text \<open>
  The goroutines run in some interleaving: a schedule names the worker that makes the next
  step. \<open>pool_run\<close> is the state after a schedule, from the state in which the queue holds
  every task and \<open>maxWorkers\<close> workers have been started.
\<close>

definition pool_run :: "env \<Rightarrow> nat \<Rightarrow> ConversionTask list \<Rightarrow> nat list \<Rightarrow> pool" where
  "pool_run e maxWorkers tasks sched =
     fold (pool_step e) sched
       \<lparr>taskQueue = tasks, errChan = [], workers = replicate maxWorkers Ranging,
        processed = []\<rparr>"

text \<open>
  \<^verbatim>\<open>convert\<close>, from the list of files the directory walk has found (or its error). The result
  is \<open>None\<close> as long as \<^verbatim>\<open>wg.Wait\<close> blocks, that is when the schedule ends before every
  worker has left its loop; otherwise it is the value \<^verbatim>\<open>convert\<close> returns: the first error
  of the error channel, or no error.
\<close>

definition convert ::
  "env \<Rightarrow> nat \<Rightarrow> string \<Rightarrow> batch_error + string list \<Rightarrow> nat list \<Rightarrow> batch_error option option"
where
  "convert e maxWorkers toDir walk sched =
     (case walk of
        Inl err \<Rightarrow> Some (Some err)
      | Inr files \<Rightarrow>
          if length files = 0 then Some None
          else if \<not> MkdirAll e toDir then Some (Some (CreateOutputDirFailed toDir))
          else
            let st = pool_run e maxWorkers (make_tasks e files) sched in
            if list_all (\<lambda>wk. wk = Finished) (workers st) then
              (case errChan st of [] \<Rightarrow> Some None | err # rest \<Rightarrow> Some (Some err))
            else None)"

text \<open>
  A test environment, for the files \<open>s/a\<close>, \<open>b\<close>, \<open>c\<close>, \<open>d\<close> and \<open>f\<close> converted from the
  directory \<open>in\<close> to the directory \<open>out\<close>. Each of the four steps fails for one file: the
  directory \<open>out/s\<close> cannot be created, the file \<open>in/b\<close> cannot be opened, the file
  \<open>out/c\<close> cannot be created, and the conversion of \<open>in/d\<close> fails. Every other call
  succeeds.
\<close>

definition test_env :: env where
  "test_env = \<lparr>MkdirAll = (\<lambda>p. p \<noteq> ''out/s''), Open = (\<lambda>p. p \<noteq> ''in/b''),
      Create = (\<lambda>p. p \<noteq> ''out/c''), convertFunc = (\<lambda>i out. i \<noteq> ''in/d''),
      CloseInput = (\<lambda>p. True), CloseOutput = (\<lambda>p. True),
      Dir = (\<lambda>p. if p = ''out/s/a'' then ''out/s'' else ''out''),
      inputPathOf = (\<lambda>rel. ''in/'' @ rel), outputPathOf = (\<lambda>rel. ''out/'' @ rel)\<rparr>"

section \<open>Notions used in the statements\<close>

text \<open>The three header fields of a stream, as \<^verbatim>\<open>DataToPng\<close> reads them.\<close>

definition header_width :: "reader \<Rightarrow> 32 word" where
  "header_width rd = LittleEndian_Uint32 (take 4 rd)"

definition header_height :: "reader \<Rightarrow> 32 word" where
  "header_height rd = LittleEndian_Uint32 (take 4 (drop 4 rd))"

definition header_alphaFlag :: "reader \<Rightarrow> 32 word" where
  "header_alphaFlag rd = LittleEndian_Uint32 (take 4 (drop 8 rd))"

text \<open>The colour the initialisation loops write: the default of the mode.\<close>

definition default_color :: "bool \<Rightarrow> RGBA" where
  "default_color hasAlpha = (if hasAlpha then RGBA 0 0 0 0 else RGBA 0 0 0 255)"

text \<open>
  The invariant of the body loop on a canvas of \<open>w\<close> by \<open>h\<close> pixels: the canvas keeps its
  size, the cursor stays within it, and the calls of \<^verbatim>\<open>SetRGBA\<close> made so far are those
  of the pixels below the cursor, in row-major order.
\<close>

definition dinv :: "nat \<Rightarrow> nat \<Rightarrow> dstate \<Rightarrow> bool" where
  "dinv w h st \<longleftrightarrow>
     Dx (img st) = w \<and> Dy (img st) = h \<and> length (Pix (img st)) = w * h \<and>
     cursor st \<le> w * h \<and> writes st = run_coords w 0 (cursor st)"

text \<open>The colour of the pixel with row-major index \<open>k\<close>, as the encoder reads it.\<close>

definition pixel_at :: "Image \<Rightarrow> nat \<Rightarrow> RGBA" where
  "pixel_at im k = getRGBA im (k mod img_width im) (k div img_width im)"

text \<open>The pixel bytes and the count byte one iteration of the encoder writes.\<close>

definition pixel_bytes :: "bool \<Rightarrow> RGBA \<Rightarrow> byte list" where
  "pixel_bytes hasAlpha c =
     (if hasAlpha then (if A c \<noteq> 0 then [A c, B c, G c, R c] else [A c])
      else [B c, G c, R c])"

definition count_byte :: "nat \<Rightarrow> byte" where
  "count_byte count = (if count = 256 then 0 else of_nat count)"

text \<open>A test image: one row of \<open>n\<close> opaque pixels of one colour.\<close>

definition solid :: "nat \<Rightarrow> Image" where
  "solid n = \<lparr>kind = image_RGBA, img_width = n, img_height = 1,
              At = (\<lambda>x y. (0x1111, 0x2222, 0x3333, 0xffff))\<rparr>"

text \<open>The alpha value of a colour, of 16 bits.\<close>

fun alpha16 :: "color16 \<Rightarrow> 16 word" where
  "alpha16 (r16, g16, b16, a16) = a16"

text \<open>A test image of two pixels: a transparent one and an opaque one.\<close>

definition two_pixels :: Image where
  "two_pixels = \<lparr>kind = image_NRGBA, img_width = 2, img_height = 1,
       At = (\<lambda>x y. if x = 0 then (0, 0, 0, 0) else (0x1111, 0x2222, 0x3333, 0xffff))\<rparr>"

text \<open>
  The colour the decoder paints for a run the encoder wrote for the colour \<open>c\<close>: in alpha
  mode a colour with alpha 0 comes back as \<open>RGBA 0 0 0 0\<close>; otherwise the alpha is 255.
\<close>

definition wire_color :: "bool \<Rightarrow> RGBA \<Rightarrow> RGBA" where
  "wire_color hasAlpha c =
     (if hasAlpha then (if A c = 0 then RGBA 0 0 0 0 else c)
      else RGBA (R c) (G c) (B c) 255)"

text \<open>A test image of a type outside the type switch: one transparent pixel of 16-bit NRGBA.\<close>

definition transparent64 :: Image where
  "transparent64 = \<lparr>kind = image_NRGBA64, img_width = 1, img_height = 1,
       At = (\<lambda>x y. (0, 0, 0, 0))\<rparr>"

text \<open>
  Two more test images of types outside the type switch: two pixels of 16-bit NRGBA, the
  first one half transparent (the colour \<^verbatim>\<open>color.NRGBA64{51400, 25700, 12850, 0x8080}\<close>,
  whose method \<^verbatim>\<open>RGBA()\<close> gives the premultiplied values below), the second one opaque
  white; and one transparent pixel of a paletted image.
\<close>

definition translucent64 :: Image where
  "translucent64 = \<lparr>kind = image_NRGBA64, img_width = 2, img_height = 1,
       At = (\<lambda>x y. if x = 0 \<and> y = 0 then (25800, 12900, 6450, 0x8080)
                   else if x = 1 \<and> y = 0 then (0xffff, 0xffff, 0xffff, 0xffff)
                   else (0, 0, 0, 0))\<rparr>"

definition transparent_paletted :: Image where
  "transparent_paletted = \<lparr>kind = image_Paletted, img_width = 1, img_height = 1,
       At = (\<lambda>x y. (0, 0, 0, 0))\<rparr>"

text \<open>
  A test image of the type \<^verbatim>\<open>*image.NRGBA\<close>, as \<^verbatim>\<open>png.Decode\<close> returns it: one pixel, stored
  in the PNG as \<open>(200, 100, 50, 128)\<close>.
\<close>

definition translucent8 :: Image where
  "translucent8 =
     png_Decode \<lparr>png_width = 1, png_height = 1, png_data = cbTCA8 [(200, 100, 50, 128)]\<rparr>"

text \<open>
  The steps of a task, in terms of the calls the worker makes. \<open>step_error e t err\<close>: one of
  the four steps of the task \<open>t\<close> fails (creating the output directory, opening the input
  file, creating the output file, running the conversion), the steps before it having
  succeeded, and \<open>err\<close> is the error the worker builds for that step. \<open>steps_ok\<close>: the four
  steps succeed. \<open>closes_ok\<close>: both files can be closed.
\<close>

definition step_error :: "env \<Rightarrow> ConversionTask \<Rightarrow> batch_error \<Rightarrow> bool" where
  "step_error e t err \<longleftrightarrow>
     (\<not> MkdirAll e (Dir e (outputPath t)) \<and>
        err = CreateOutputDirFailed (Dir e (outputPath t))) \<or>
     (MkdirAll e (Dir e (outputPath t)) \<and> \<not> Open e (inputPath t) \<and>
        err = OpenInputFailed (inputPath t)) \<or>
     (MkdirAll e (Dir e (outputPath t)) \<and> Open e (inputPath t) \<and>
        \<not> Create e (outputPath t) \<and> err = CreateOutputFailed (outputPath t)) \<or>
     (MkdirAll e (Dir e (outputPath t)) \<and> Open e (inputPath t) \<and> Create e (outputPath t) \<and>
        \<not> convertFunc e (inputPath t) (outputPath t) \<and> err = ConvertFailed (relPath t))"

definition steps_ok :: "env \<Rightarrow> ConversionTask \<Rightarrow> bool" where
  "steps_ok e t \<longleftrightarrow>
     MkdirAll e (Dir e (outputPath t)) \<and> Open e (inputPath t) \<and> Create e (outputPath t) \<and>
     convertFunc e (inputPath t) (outputPath t)"

definition closes_ok :: "env \<Rightarrow> ConversionTask \<Rightarrow> bool" where
  "closes_ok e t \<longleftrightarrow> CloseInput e (inputPath t) \<and> CloseOutput e (outputPath t)"

text \<open>The tasks the workers hold, and the errors among a list of results.\<close>

definition held :: "worker list \<Rightarrow> ConversionTask list" where
  "held ws = concat (map (\<lambda>wk. case wk of Running task \<Rightarrow> [task] | _ \<Rightarrow> []) ws)"

definition captured :: "(ConversionTask \<times> task_result) list \<Rightarrow> batch_error list" where
  "captured rs = concat (map (\<lambda>(task, r). case r of Captured err \<Rightarrow> [err] | _ \<Rightarrow> []) rs)"

text \<open>
  The invariant of the pool: every task is in the queue, held by a worker or processed,
  and these are as many as there are tasks; the error channel holds the errors of the
  processed tasks, in the order of processing; and a processed task is recorded with the
  result of the loop body.
\<close>

definition pinv :: "env \<Rightarrow> ConversionTask list \<Rightarrow> nat \<Rightarrow> pool \<Rightarrow> bool" where
  "pinv e tasks n st \<longleftrightarrow>
     set (taskQueue st) \<union> set (held (workers st)) \<union> fst ` set (processed st) = set tasks \<and>
     length (taskQueue st) + length (held (workers st)) + length (processed st) = length tasks \<and>
     errChan st = captured (processed st) \<and>
     (\<forall>p \<in> set (processed st). snd p = run_task e (fst p)) \<and>
     (Finished \<in> set (workers st) \<longrightarrow> taskQueue st = []) \<and>
     length (workers st) = n"

text \<open>What is left to do in a pool: a bound on the number of steps its workers can make.\<close>

definition pool_measure :: "pool \<Rightarrow> nat" where
  "pool_measure st =
     2 * length (taskQueue st) + length (held (workers st)) +
     length (filter (\<lambda>wk. wk \<noteq> Finished) (workers st))"

section \<open>Properties of the decoder\<close>

subsection \<open>The canvas\<close>

lemma SetRGBA_dims [simp]:
  "Dx (SetRGBA im x y c) = Dx im" "Dy (SetRGBA im x y c) = Dy im"
  "length (Pix (SetRGBA im x y c)) = length (Pix im)"
  by (simp_all add: SetRGBA_def)

lemma SetRGBA_nth:
  "k < length (Pix im) \<Longrightarrow>
   Pix (SetRGBA im x y c) ! k =
     (if x < Dx im \<and> y < Dy im \<and> k = y * Dx im + x then c else Pix im ! k)"
  by (simp add: SetRGBA_def nth_list_update)

lemma paint_Suc:
  "paint im i (Suc n) c =
     SetRGBA (paint im i n c) ((i + n) mod Dx im) ((i + n) div Dx im) c"
  by (simp add: paint_def run_coords_def)

lemma paint_0 [simp]: "paint im i 0 c = im"
  by (simp add: paint_def run_coords_def)

lemma paint_dims [simp]:
  "Dx (paint im i n c) = Dx im" "Dy (paint im i n c) = Dy im"
  "length (Pix (paint im i n c)) = length (Pix im)"
  by (induction n) (simp_all add: paint_Suc)

lemma div_less_of_lt_mult: "(k::nat) < w * h \<Longrightarrow> k div w < h"
  by (simp add: less_mult_imp_div_less mult.commute)

lemma paint_nth:
  "length (Pix im) = Dx im * Dy im \<Longrightarrow> i + n \<le> Dx im * Dy im \<Longrightarrow> k < Dx im * Dy im \<Longrightarrow>
   Pix (paint im i n c) ! k = (if i \<le> k \<and> k < i + n then c else Pix im ! k)"
proof (induction n)
  case 0
  then show ?case by auto
next
  case (Suc n)
  have lt: "i + n < Dx im * Dy im" using Suc.prems by simp
  then have w: "0 < Dx im" by (cases "Dx im") simp_all
  have y: "(i + n) div Dx im < Dy im" using lt by (rule div_less_of_lt_mult)
  have x: "(i + n) mod Dx im < Dx im" using w by simp
  have idx: "(i + n) div Dx im * Dx im + (i + n) mod Dx im = i + n" by simp
  have IH: "Pix (paint im i n c) ! k = (if i \<le> k \<and> k < i + n then c else Pix im ! k)"
    using Suc by simp
  show ?case
    using x y IH Suc.prems(1,3)
    by (simp add: paint_Suc SetRGBA_nth idx) 
qed

lemma fill_row_dims [simp]:
  "Dx (fold (\<lambda>x im'. SetRGBA im' x y c) xs im) = Dx im"
  "Dy (fold (\<lambda>x im'. SetRGBA im' x y c) xs im) = Dy im"
  "length (Pix (fold (\<lambda>x im'. SetRGBA im' x y c) xs im)) = length (Pix im)"
  by (induction xs arbitrary: im) simp_all

lemma fill_row_nth:
  "length (Pix im) = Dx im * Dy im \<Longrightarrow> y < Dy im \<Longrightarrow> n \<le> Dx im \<Longrightarrow> k < Dx im * Dy im \<Longrightarrow>
   Pix (fold (\<lambda>x im'. SetRGBA im' x y c) [0..<n] im) ! k =
     (if y * Dx im \<le> k \<and> k < y * Dx im + n then c else Pix im ! k)"
proof (induction n)
  case 0
  then show ?case by auto
next
  case (Suc n)
  then show ?case by (auto simp: SetRGBA_nth)
qed

lemma fill_rows_dims [simp]:
  "Dx (fold (\<lambda>y im. fold (\<lambda>x im'. SetRGBA im' x y c) xs im) ys im0) = Dx im0"
  "Dy (fold (\<lambda>y im. fold (\<lambda>x im'. SetRGBA im' x y c) xs im) ys im0) = Dy im0"
  "length (Pix (fold (\<lambda>y im. fold (\<lambda>x im'. SetRGBA im' x y c) xs im) ys im0)) = length (Pix im0)"
  by (induction ys arbitrary: im0) simp_all

lemma fill_rows_nth:
  "length (Pix im) = Dx im * Dy im \<Longrightarrow> m \<le> Dy im \<Longrightarrow> k < Dx im * Dy im \<Longrightarrow>
   Pix (fold (\<lambda>y im'. fold (\<lambda>x im''. SetRGBA im'' x y c) [0..<Dx im] im') [0..<m] im) ! k =
     (if k < m * Dx im then c else Pix im ! k)"
proof (induction m)
  case 0
  then show ?case by simp
next
  case (Suc m)
  let ?im1 = "fold (\<lambda>y im'. fold (\<lambda>x im''. SetRGBA im'' x y c) [0..<Dx im] im') [0..<m] im"
  have IH: "Pix ?im1 ! k = (if k < m * Dx im then c else Pix im ! k)"
    using Suc by simp
  have "Pix (fold (\<lambda>x im''. SetRGBA im'' x m c) [0..<Dx ?im1] ?im1) ! k =
          (if m * Dx ?im1 \<le> k \<and> k < m * Dx ?im1 + Dx ?im1 then c else Pix ?im1 ! k)"
    using Suc.prems by (intro fill_row_nth) simp_all
  then show ?case using IH by (auto simp: )
qed

lemma init_canvas_NewRGBA:
  "init_canvas hasAlpha (NewRGBA w h) =
     \<lparr>Dx = w, Dy = h, Pix = replicate (w * h) (default_color hasAlpha)\<rparr>"
proof -
  let ?c = "default_color hasAlpha"
  let ?im = "NewRGBA w h"
  have eq: "init_canvas hasAlpha ?im =
        fold (\<lambda>y im'. fold (\<lambda>x im''. SetRGBA im'' x y ?c) [0..<Dx ?im] im') [0..<Dy ?im] ?im"
    by (cases hasAlpha) (simp_all add: init_canvas_def default_color_def)
  have dims: "Dx ?im = w" "Dy ?im = h" "length (Pix ?im) = w * h"
    by (simp_all add: NewRGBA_def)
  have "Pix (init_canvas hasAlpha ?im) = replicate (w * h) ?c"
  proof (rule nth_equalityI)
    show "length (Pix (init_canvas hasAlpha ?im)) = length (replicate (w * h) ?c)"
      by (simp add: eq dims)
  next
    fix k assume "k < length (Pix (init_canvas hasAlpha ?im))"
    then have k: "k < w * h" by (simp add: eq dims)
    have "Pix (init_canvas hasAlpha ?im) ! k = (if k < Dy ?im * Dx ?im then ?c else Pix ?im ! k)"
      unfolding eq using k by (intro fill_rows_nth) (simp_all add: dims)
    then show "Pix (init_canvas hasAlpha ?im) ! k = replicate (w * h) ?c ! k"
      using k by (simp add: dims mult.commute)
  qed
  moreover have "Dx (init_canvas hasAlpha ?im) = w" "Dy (init_canvas hasAlpha ?im) = h"
    by (simp_all add: eq dims)
  ultimately show ?thesis by (cases "init_canvas hasAlpha ?im") simp
qed

subsection \<open>The body loop\<close>

lemma decode_loop_done:
  "\<not> cursor st < npix \<Longrightarrow> decode_loop npix hasAlpha st = (None, st)"
  by (simp add: decode_loop.simps)

lemma decode_loop_stop:
  "cursor st < npix \<Longrightarrow> read_run hasAlpha (input st) = (Inl e, rd) \<Longrightarrow>
   decode_loop npix hasAlpha st =
     (if e = EOF then None else Some e, st\<lparr>input := rd\<rparr>)"
  by (simp add: decode_loop.simps)

lemma decode_loop_run:
  "cursor st < npix \<Longrightarrow> read_run hasAlpha (input st) = (Inr (count, c), rd) \<Longrightarrow>
   decode_loop npix hasAlpha st =
     decode_loop npix hasAlpha
       \<lparr>cursor = cursor st + min count (npix - cursor st),
        img = paint (img st) (cursor st) (min count (npix - cursor st)) c,
        input = rd,
        writes = writes st @ run_coords (Dx (img st)) (cursor st) (min count (npix - cursor st))\<rparr>"
  by (subst decode_loop.simps) (simp add: min_def Let_def)

lemma read_run_error:
  "read_run hasAlpha rd = (Inl e, rd') \<Longrightarrow> e = EOF \<or> e = ErrUnexpectedEOF"
  by (auto simp: read_run_def Read1_def ReadFull_def Let_def
           split: prod.splits sum.splits if_splits list.splits)

lemma run_coords_Suc:
  "run_coords w i (Suc n) = run_coords w i n @ [((i + n) mod w, (i + n) div w)]"
  by (simp add: run_coords_def)

lemma run_coords_append:
  "run_coords w i n @ run_coords w (i + n) m = run_coords w i (n + m)"
proof (induction m)
  case 0
  show ?case by (simp add: run_coords_def)
next
  case (Suc m)
  have "run_coords w i n @ run_coords w (i + n) (Suc m) =
        (run_coords w i n @ run_coords w (i + n) m) @ [((i + n + m) mod w, (i + n + m) div w)]"
    by (simp only: run_coords_Suc append_assoc)
  also have "\<dots> = run_coords w i (n + m) @ [((i + (n + m)) mod w, (i + (n + m)) div w)]"
    by (simp only: Suc.IH add.assoc)
  also have "\<dots> = run_coords w i (Suc (n + m))"
    by (simp only: run_coords_Suc)
  finally show ?case by (simp only: add_Suc_right)
qed

lemma decode_loop_inv:
  "dinv w h st \<Longrightarrow> decode_loop (w * h) hasAlpha st = (r, st') \<Longrightarrow>
   dinv w h st' \<and> cursor st \<le> cursor st' \<and>
   (r = None \<or> r = Some ErrUnexpectedEOF) \<and>
   (\<forall>k. cursor st' \<le> k \<and> k < w * h \<longrightarrow> Pix (img st') ! k = Pix (img st) ! k)"
proof (induction "w * h - cursor st" arbitrary: st rule: less_induct)
  case less
  show ?case
  proof (cases "cursor st < w * h")
    case False
    then show ?thesis using less.prems by (simp add: decode_loop_done)
  next
    case True
    obtain res rd where rr: "read_run hasAlpha (input st) = (res, rd)"
      by (cases "read_run hasAlpha (input st)")
    show ?thesis
    proof (cases res)
      case (Inl e)
      then show ?thesis
        using less.prems True rr read_run_error [of hasAlpha "input st" e rd]
        by (auto simp: decode_loop_stop dinv_def)
    next
      case (Inr p)
      obtain count c where p: "p = (count, c)" by (cases p)
      let ?n = "min count (w * h - cursor st)"
      let ?st1 = "\<lparr>cursor = cursor st + ?n,
        img = paint (img st) (cursor st) ?n c,
        input = rd,
        writes = writes st @ run_coords (Dx (img st)) (cursor st) ?n\<rparr>"
      have pos: "0 < count" using rr Inr p read_run_count_pos by blast
      then have npos: "0 < ?n" using True by simp
      have step: "decode_loop (w * h) hasAlpha st = decode_loop (w * h) hasAlpha ?st1"
        using True rr Inr p by (simp add: decode_loop_run)
      have app: "run_coords w 0 (cursor st) @ run_coords w (cursor st) ?n =
                 run_coords w 0 (cursor st + ?n)"
        using run_coords_append [of w 0 "cursor st" ?n] by simp
      have le1: "cursor st + ?n \<le> w * h" using True by simp
      have inv1: "dinv w h ?st1"
        using less.prems(1) app le1 by (simp add: dinv_def)
      have meas: "w * h - cursor ?st1 < w * h - cursor st"
        using npos True by simp
      have res1: "decode_loop (w * h) hasAlpha ?st1 = (r, st')"
        using less.prems(2) step by simp
      have IH: "dinv w h st' \<and> cursor ?st1 \<le> cursor st' \<and>
         (r = None \<or> r = Some ErrUnexpectedEOF) \<and>
         (\<forall>k. cursor st' \<le> k \<and> k < w * h \<longrightarrow> Pix (img st') ! k = Pix (img ?st1) ! k)"
        by (rule less.hyps [OF meas inv1 res1])
      have keep: "Pix (img ?st1) ! k = Pix (img st) ! k"
        if "cursor ?st1 \<le> k" "k < w * h" for k
      proof -
        have "Pix (paint (img st) (cursor st) ?n c) ! k =
              (if cursor st \<le> k \<and> k < cursor st + ?n then c else Pix (img st) ! k)"
          using less.prems(1) le1 that(2) by (intro paint_nth) (simp_all add: dinv_def)
        then show ?thesis using that(1) by simp
      qed
      have c1: "cursor st \<le> cursor st'" using IH by simp
      have c2: "\<forall>k. cursor st' \<le> k \<and> k < w * h \<longrightarrow> Pix (img st') ! k = Pix (img st) ! k"
      proof (intro allI impI)
        fix k assume k: "cursor st' \<le> k \<and> k < w * h"
        have k1: "cursor ?st1 \<le> k" using IH k by linarith
        have k2: "k < w * h" using k by simp
        have "Pix (img st') ! k = Pix (img ?st1) ! k" using IH k by blast
        also have "\<dots> = Pix (img st) ! k" by (rule keep [OF k1 k2])
        finally show "Pix (img st') ! k = Pix (img st) ! k" .
      qed
      have c3: "dinv w h st'" "r = None \<or> r = Some ErrUnexpectedEOF" using IH by blast+
      show ?thesis using c1 c2 c3 by (intro conjI)
    qed
  qed
qed

subsection \<open>The header\<close>

lemma binary_Read_int32_ok:
  "4 \<le> length rd \<Longrightarrow>
   binary_Read_int32 rd = (Inr (LittleEndian_Uint32 (take 4 rd)), drop 4 rd)"
  by (simp add: binary_Read_int32_def ReadFull_def)

lemma DataToPng_state_header:
  assumes "12 \<le> length rd"
  shows "DataToPng_state rd =
    (if sint (header_width rd) \<le> 0 \<or> sint (header_height rd) \<le> 0 \<or>
        sint (header_width rd) > 8192 \<or> sint (header_height rd) > 8192
     then (Some InvalidDimensions,
           \<lparr>cursor = 0, img = NewRGBA 0 0, input = drop 12 rd, writes = []\<rparr>)
     else decode_loop (nat (sint (header_width rd * header_height rd)))
            (header_alphaFlag rd \<noteq> 0)
            \<lparr>cursor = 0,
             img = init_canvas (header_alphaFlag rd \<noteq> 0)
                     (NewRGBA (nat (sint (header_width rd))) (nat (sint (header_height rd)))),
             input = drop 12 rd, writes = []\<rparr>)"
proof -
  have r1: "binary_Read_int32 rd = (Inr (header_width rd), drop 4 rd)"
    using assms by (simp add: binary_Read_int32_ok header_width_def)
  have r2: "binary_Read_int32 (drop 4 rd) = (Inr (header_height rd), drop 8 rd)"
    using assms by (simp add: binary_Read_int32_ok header_height_def)
  have r3: "binary_Read_int32 (drop 8 rd) = (Inr (header_alphaFlag rd), drop 12 rd)"
    using assms by (simp add: binary_Read_int32_ok header_alphaFlag_def)
  show ?thesis
    by (simp add: DataToPng_state_def r1 r2 r3 Let_def)
qed

lemma sint_mult_dims:
  fixes a b :: "32 word"
  assumes "0 < sint a" "sint a \<le> 8192" "0 < sint b" "sint b \<le> 8192"
  shows "nat (sint (a * b)) = nat (sint a) * nat (sint b)"
proof -
  have "sint a * sint b \<le> 8192 * 8192"
    using assms by (intro mult_mono) simp_all
  moreover have "0 \<le> sint a * sint b" using assms by simp
  ultimately have "signed_take_bit 31 (sint a * sint b) = sint a * sint b"
    by (simp add: signed_take_bit_int_eq_self)
  then have "sint (a * b) = sint a * sint b"
    by (simp add: sint_word_mult)
  then show ?thesis using assms by (simp add: nat_mult_distrib)
qed

lemma decode_loop_not_InvalidDimensions:
  "fst (decode_loop npix hasAlpha st) \<noteq> Some InvalidDimensions"
proof (induction "npix - cursor st" arbitrary: st rule: less_induct)
  case less
  show ?case
  proof (cases "cursor st < npix")
    case False
    then show ?thesis by (simp add: decode_loop_done)
  next
    case True
    obtain res rd where rr: "read_run hasAlpha (input st) = (res, rd)"
      by (cases "read_run hasAlpha (input st)")
    show ?thesis
    proof (cases res)
      case (Inl e)
      then show ?thesis
        using True rr read_run_error [of hasAlpha "input st" e rd]
        by (auto simp: decode_loop_stop)
    next
      case (Inr p)
      obtain count c where p: "p = (count, c)" by (cases p)
      let ?n = "min count (npix - cursor st)"
      let ?st1 = "\<lparr>cursor = cursor st + ?n,
        img = paint (img st) (cursor st) ?n c,
        input = rd,
        writes = writes st @ run_coords (Dx (img st)) (cursor st) ?n\<rparr>"
      have pos: "0 < count" using rr Inr p read_run_count_pos by blast
      have meas: "npix - cursor ?st1 < npix - cursor st"
        using pos True by simp
      have step: "decode_loop npix hasAlpha st = decode_loop npix hasAlpha ?st1"
        using True rr Inr p by (simp add: decode_loop_run)
      show ?thesis unfolding step by (rule less.hyps [OF meas])
    qed
  qed
qed

lemma DataToPng_eq:
  "DataToPng rd = (case fst (DataToPng_state rd) of Some e \<Rightarrow> Inl e
                    | None \<Rightarrow> png_Encode (img (snd (DataToPng_state rd))))"
  by (simp add: DataToPng_def split: prod.splits option.splits)

lemma png_Encode_not_InvalidDimensions: "png_Encode m \<noteq> Inl InvalidDimensions"
  by (simp add: png_Encode_def)

text \<open>
  Claim C4. A stream whose twelve header bytes are there is rejected with the error
  \<open>InvalidDimensions\<close> exactly when its width or its height is not in 1..8192; the
  rejection happens after the header only: the unread input is the whole body, and no
  pixel has been written.
\<close>

theorem DataToPng_InvalidDimensions:
  assumes "12 \<le> length rd"
  shows "(DataToPng rd = Inl InvalidDimensions \<longleftrightarrow>
            sint (header_width rd) \<le> 0 \<or> sint (header_height rd) \<le> 0 \<or>
            sint (header_width rd) > 8192 \<or> sint (header_height rd) > 8192) \<and>
         (DataToPng rd = Inl InvalidDimensions \<longrightarrow>
            input (snd (DataToPng_state rd)) = drop 12 rd \<and>
            writes (snd (DataToPng_state rd)) = [])"
proof (cases "sint (header_width rd) \<le> 0 \<or> sint (header_height rd) \<le> 0 \<or>
            sint (header_width rd) > 8192 \<or> sint (header_height rd) > 8192")
  case True
  then have "DataToPng_state rd = (Some InvalidDimensions,
           \<lparr>cursor = 0, img = NewRGBA 0 0, input = drop 12 rd, writes = []\<rparr>)"
    using DataToPng_state_header [OF assms] by simp
  then show ?thesis using True by (simp add: DataToPng_eq)
next
  case False
  then have "DataToPng_state rd = decode_loop (nat (sint (header_width rd * header_height rd)))
            (header_alphaFlag rd \<noteq> 0)
            \<lparr>cursor = 0,
             img = init_canvas (header_alphaFlag rd \<noteq> 0)
                     (NewRGBA (nat (sint (header_width rd))) (nat (sint (header_height rd)))),
             input = drop 12 rd, writes = []\<rparr>"
    using DataToPng_state_header [OF assms] by simp
  then have "fst (DataToPng_state rd) \<noteq> Some InvalidDimensions"
    by (simp add: decode_loop_not_InvalidDimensions)
  then have "DataToPng rd \<noteq> Inl InvalidDimensions"
    by (auto simp: DataToPng_eq png_Encode_not_InvalidDimensions split: option.splits)
  then show ?thesis using False by simp
qed

theorem DataToPng_InvalidDimensions_witness:
  "DataToPng [0xFF, 0xFF, 0xFF, 0xFF, 2, 0, 0, 0, 1, 0, 0, 0, 3, 0] = Inl InvalidDimensions \<and>
   DataToPng [0, 0, 0, 0, 2, 0, 0, 0, 1, 0, 0, 0, 3, 0] = Inl InvalidDimensions \<and>
   DataToPng [2, 0, 0, 0, 1, 0x20, 0, 0, 0, 0, 0, 0, 5, 1, 2, 3] = Inl InvalidDimensions \<and>
   DataToPng [2, 0, 0, 0, 0xA0, 0x86, 1, 0, 0, 0, 0, 0, 5, 1, 2, 3] = Inl InvalidDimensions \<and>
   DataToPng [0, 0x20, 0, 0, 1, 0, 0, 0, 0, 0, 0, 0, 5, 1, 2, 3] \<noteq> Inl InvalidDimensions \<and>
   input (snd (DataToPng_state [0xFF, 0xFF, 0xFF, 0xFF, 2, 0, 0, 0, 1, 0, 0, 0, 3, 0])) = [3, 0]"
  using DataToPng_InvalidDimensions [of "[0xFF, 0xFF, 0xFF, 0xFF, 2, 0, 0, 0, 1, 0, 0, 0, 3, 0]"]
        DataToPng_InvalidDimensions [of "[0, 0, 0, 0, 2, 0, 0, 0, 1, 0, 0, 0, 3, 0]"]
        DataToPng_InvalidDimensions [of "[2, 0, 0, 0, 1, 0x20, 0, 0, 0, 0, 0, 0, 5, 1, 2, 3]"]
        DataToPng_InvalidDimensions [of "[2, 0, 0, 0, 0xA0, 0x86, 1, 0, 0, 0, 0, 0, 5, 1, 2, 3]"]
        DataToPng_InvalidDimensions [of "[0, 0x20, 0, 0, 1, 0, 0, 0, 0, 0, 0, 0, 5, 1, 2, 3]"]
  by (simp add: header_width_def header_height_def LittleEndian_Uint32_def)

subsection \<open>Pixel writes and the cursor\<close>

lemma DataToPng_state_short:
  "length rd < 12 \<Longrightarrow>
   \<exists>e rd'. DataToPng_state rd =
     (Some e, \<lparr>cursor = 0, img = NewRGBA 0 0, input = rd', writes = []\<rparr>)"
  by (auto simp: DataToPng_state_def binary_Read_int32_def ReadFull_def Let_def
           split: prod.splits sum.splits if_splits)

lemma dinv_init:
  "dinv w h \<lparr>cursor = 0, img = init_canvas a (NewRGBA w h), input = rd, writes = []\<rparr>"
  by (simp add: dinv_def init_canvas_NewRGBA run_coords_def)

lemma DataToPng_state_cases:
  assumes "DataToPng_state rd = (r, st)"
  shows "(cursor st = 0 \<and> writes st = [] \<and> img st = NewRGBA 0 0) \<or>
         (12 \<le> length rd \<and> 0 < sint (header_width rd) \<and> sint (header_width rd) \<le> 8192 \<and>
          0 < sint (header_height rd) \<and> sint (header_height rd) \<le> 8192 \<and>
          decode_loop (nat (sint (header_width rd)) * nat (sint (header_height rd)))
            (header_alphaFlag rd \<noteq> 0)
            \<lparr>cursor = 0,
             img = init_canvas (header_alphaFlag rd \<noteq> 0)
                     (NewRGBA (nat (sint (header_width rd))) (nat (sint (header_height rd)))),
             input = drop 12 rd, writes = []\<rparr> = (r, st))"
proof (cases "12 \<le> length rd")
  case False
  then show ?thesis using DataToPng_state_short [of rd] assms by auto
next
  case True
  show ?thesis
  proof (cases "sint (header_width rd) \<le> 0 \<or> sint (header_height rd) \<le> 0 \<or>
            sint (header_width rd) > 8192 \<or> sint (header_height rd) > 8192")
    case bad: True
    then show ?thesis using DataToPng_state_header [OF True] assms by auto
  next
    case False
    then have ok: "0 < sint (header_width rd)" "sint (header_width rd) \<le> 8192"
        "0 < sint (header_height rd)" "sint (header_height rd) \<le> 8192"
      by auto
    have "nat (sint (header_width rd * header_height rd)) =
          nat (sint (header_width rd)) * nat (sint (header_height rd))"
      by (rule sint_mult_dims [OF ok])
    then show ?thesis using DataToPng_state_header [OF True] assms False True ok by simp
  qed
qed

lemma run_coords_in_canvas:
  assumes "n \<le> w * h" "(x, y) \<in> set (run_coords w 0 n)"
  shows "x < w \<and> y < h"
proof -
  obtain j where j: "j < n" "x = j mod w" "y = j div w"
    using assms(2) by (auto simp: run_coords_def)
  have lt: "j < w * h" using j(1) assms(1) by simp
  then have "0 < w" by (cases w) simp_all
  then show ?thesis using j lt by (simp add: div_less_of_lt_mult)
qed

lemma run_coords_index:
  "0 < w \<Longrightarrow> map (\<lambda>(x, y). y * w + x) (run_coords w 0 n) = [0..<n]"
  by (simp add: run_coords_def o_def map_idI)

text \<open>
  Claim C9. Whatever the input stream, when \<^verbatim>\<open>DataToPng\<close> leaves its body loop the cursor is
  at most width times height, every coordinate pair the loop has passed to \<^verbatim>\<open>SetRGBA\<close>
  lies inside the canvas, and the painted pixel indices are exactly those below the cursor,
  each once and in order. (The cursor only grows, so the bound holds all along.)
\<close>

theorem decode_writes_in_canvas:
  assumes "DataToPng_state rd = (r, st)"
  shows "cursor st \<le> Dx (img st) * Dy (img st) \<and>
         (\<forall>(x, y) \<in> set (writes st). x < Dx (img st) \<and> y < Dy (img st)) \<and>
         map (\<lambda>(x, y). y * Dx (img st) + x) (writes st) = [0..<cursor st]"
proof -
  from DataToPng_state_cases [OF assms]
  show ?thesis
  proof
    assume "cursor st = 0 \<and> writes st = [] \<and> img st = NewRGBA 0 0"
    then show ?thesis by simp
  next
    assume a: "12 \<le> length rd \<and> 0 < sint (header_width rd) \<and> sint (header_width rd) \<le> 8192 \<and>
          0 < sint (header_height rd) \<and> sint (header_height rd) \<le> 8192 \<and>
          decode_loop (nat (sint (header_width rd)) * nat (sint (header_height rd)))
            (header_alphaFlag rd \<noteq> 0)
            \<lparr>cursor = 0,
             img = init_canvas (header_alphaFlag rd \<noteq> 0)
                     (NewRGBA (nat (sint (header_width rd))) (nat (sint (header_height rd)))),
             input = drop 12 rd, writes = []\<rparr> = (r, st)"
    let ?w = "nat (sint (header_width rd))" and ?h = "nat (sint (header_height rd))"
    have w: "0 < ?w" using a by simp
    have res: "decode_loop (?w * ?h) (header_alphaFlag rd \<noteq> 0)
            \<lparr>cursor = 0, img = init_canvas (header_alphaFlag rd \<noteq> 0) (NewRGBA ?w ?h),
             input = drop 12 rd, writes = []\<rparr> = (r, st)"
      using a by simp
    have inv: "dinv ?w ?h st"
      using decode_loop_inv [OF dinv_init res] by simp
    then have d: "Dx (img st) = ?w" "Dy (img st) = ?h" "cursor st \<le> ?w * ?h"
      "writes st = run_coords ?w 0 (cursor st)"
      by (simp_all add: dinv_def)
    have "\<forall>(x, y) \<in> set (writes st). x < ?w \<and> y < ?h"
      using run_coords_in_canvas [OF d(3)] d(4) by auto
    moreover have "map (\<lambda>(x, y). y * ?w + x) (writes st) = [0..<cursor st]"
      using run_coords_index [OF w] d(4) by simp
    ultimately show ?thesis using d by simp
  qed
qed


theorem decode_writes_in_canvas_witness:
  "cursor (snd (DataToPng_state [2,0,0,0, 2,0,0,0, 1,0,0,0, 1, 0xFF, 0x10, 0x20, 0x30, 7, 0])) = 4 \<and>
   writes (snd (DataToPng_state [2,0,0,0, 2,0,0,0, 1,0,0,0, 1, 0xFF, 0x10, 0x20, 0x30, 7, 0]))
     = [(0, 0), (1, 0), (0, 1), (1, 1)] \<and>
   Dx (img (snd (DataToPng_state [2,0,0,0, 2,0,0,0, 1,0,0,0, 1, 0xFF, 0x10, 0x20, 0x30, 7, 0]))) = 2 \<and>
   Dy (img (snd (DataToPng_state [2,0,0,0, 2,0,0,0, 1,0,0,0, 1, 0xFF, 0x10, 0x20, 0x30, 7, 0]))) = 2"
proof -
  let ?rd = "[2,0,0,0, 2,0,0,0, 1,0,0,0, 1, 0xFF, 0x10, 0x20, 0x30, 7, 0] :: byte list"
  have ev: "DataToPng_state ?rd =
    (None, \<lparr>cursor = 4,
            img = \<lparr>Dx = 2, Dy = 2,
                   Pix = [RGBA 0x30 0x20 0x10 0xFF, RGBA 0 0 0 0, RGBA 0 0 0 0, RGBA 0 0 0 0]\<rparr>,
            input = [], writes = [(0, 0), (1, 0), (0, 1), (1, 1)]\<rparr>)"
    by code_simp
  show ?thesis
    using decode_writes_in_canvas [OF ev] by (simp add: ev)
qed

subsection \<open>Streams that end inside the body\<close>

text \<open>
  What the decoder does return on a stream with a valid header: a canvas of the size of the
  header, on which every pixel from the final cursor on has the default colour of the mode;
  the only error the body loop can return is \<open>ErrUnexpectedEOF\<close>.
\<close>

lemma DataToPng_partial_image:
  assumes "12 \<le> length rd"
    and "0 < sint (header_width rd)" "sint (header_width rd) \<le> 8192"
    and "0 < sint (header_height rd)" "sint (header_height rd) \<le> 8192"
    and "DataToPng_state rd = (r, st)"
  shows "Dx (img st) = nat (sint (header_width rd)) \<and>
         Dy (img st) = nat (sint (header_height rd)) \<and>
         length (Pix (img st)) = nat (sint (header_width rd)) * nat (sint (header_height rd)) \<and>
         (r = None \<or> r = Some ErrUnexpectedEOF) \<and>
         (\<forall>k. cursor st \<le> k \<and> k < nat (sint (header_width rd)) * nat (sint (header_height rd))
              \<longrightarrow> Pix (img st) ! k = default_color (header_alphaFlag rd \<noteq> 0))"
proof -
  let ?w = "nat (sint (header_width rd))" and ?h = "nat (sint (header_height rd))"
  let ?a = "header_alphaFlag rd \<noteq> 0"
  have res: "decode_loop (?w * ?h) ?a
            \<lparr>cursor = 0, img = init_canvas ?a (NewRGBA ?w ?h),
             input = drop 12 rd, writes = []\<rparr> = (r, st)"
    using DataToPng_state_header [OF assms(1)] assms(2-6) sint_mult_dims [OF assms(2-5)]
    by simp
  have inv: "dinv ?w ?h st \<and> (r = None \<or> r = Some ErrUnexpectedEOF) \<and>
     (\<forall>k. cursor st \<le> k \<and> k < ?w * ?h \<longrightarrow>
        Pix (img st) ! k = Pix (init_canvas ?a (NewRGBA ?w ?h)) ! k)"
    using decode_loop_inv [OF dinv_init res] by simp
  then show ?thesis by (simp add: dinv_def init_canvas_NewRGBA)
qed

text \<open>
  Claim C1. A stream that ends after the count byte of a run, with one or two of the three
  colour bytes present, is not decoded in best-effort fashion: \<^verbatim>\<open>io.ReadFull\<close> reports
  \<^verbatim>\<open>io.ErrUnexpectedEOF\<close>, the loop compares the error with \<^verbatim>\<open>io.EOF\<close> only, and
  \<^verbatim>\<open>DataToPng\<close> returns the error. When no colour byte follows the count byte the loop
  does break and the partial image is returned: the canvas of one opaque black pixel,
  written as a PNG.
\<close>

theorem DataToPng_short_colour_read:
  "DataToPng [1, 0, 0, 0, 1, 0, 0, 0, 0, 0, 0, 0, 1, 0xAA] = Inl ErrUnexpectedEOF \<and>
   DataToPng [1, 0, 0, 0, 1, 0, 0, 0, 0, 0, 0, 0, 1, 0xAA, 0xBB] = Inl ErrUnexpectedEOF \<and>
   DataToPng_state [1, 0, 0, 0, 1, 0, 0, 0, 0, 0, 0, 0, 1] =
     (None, \<lparr>cursor = 0, img = \<lparr>Dx = 1, Dy = 1, Pix = [RGBA 0 0 0 255]\<rparr>, input = [],
             writes = []\<rparr>) \<and>
   DataToPng [1, 0, 0, 0, 1, 0, 0, 0, 0, 0, 0, 0, 1] =
     Inr \<lparr>png_width = 1, png_height = 1, png_data = cbTC8 [(0, 0, 0)]\<rparr>"
  by code_simp

text \<open>
  Claim C7. In alpha mode, a stream of a 2 by 1 image whose body holds a count byte, a
  non-zero alpha byte and two of the three colour bytes ends before any pixel is covered,
  and \<^verbatim>\<open>DataToPng\<close> returns \<open>ErrUnexpectedEOF\<close> instead of the canvas of default pixels;
  the same stream cut after the alpha byte yields that canvas, written as a PNG.
\<close>

theorem DataToPng_truncated_body_error:
  "DataToPng [2, 0, 0, 0, 1, 0, 0, 0, 1, 0, 0, 0, 1, 0xFF, 0x10, 0x20] = Inl ErrUnexpectedEOF \<and>
   DataToPng_state [2, 0, 0, 0, 1, 0, 0, 0, 1, 0, 0, 0, 1, 0xFF] =
     (None, \<lparr>cursor = 0, img = \<lparr>Dx = 2, Dy = 1, Pix = [RGBA 0 0 0 0, RGBA 0 0 0 0]\<rparr>,
             input = [], writes = []\<rparr>) \<and>
   DataToPng [2, 0, 0, 0, 1, 0, 0, 0, 1, 0, 0, 0, 1, 0xFF] =
     Inr \<lparr>png_width = 2, png_height = 1, png_data = cbTCA8 [(0, 0, 0, 0), (0, 0, 0, 0)]\<rparr>"
  by code_simp

section \<open>Properties of the encoder\<close>

lemma LittleEndian_roundtrip:
  "LittleEndian_Uint32 (LittleEndian_PutUint32 v) = v"
proof (rule bit_word_eqI)
  fix n :: nat
  assume "n < LENGTH(32)"
  then have n: "n < 32" by simp
  consider "n < 8" | "8 \<le> n" "n < 16" | "16 \<le> n" "n < 24" | "24 \<le> n"
    by linarith
  then show "bit (LittleEndian_Uint32 (LittleEndian_PutUint32 v)) n = bit v n"
  proof cases
    case 1
    then show ?thesis
      by (simp add: LittleEndian_Uint32_def LittleEndian_PutUint32_def bit_simps)
  next
    case 2
    then show ?thesis
      by (auto simp: LittleEndian_Uint32_def LittleEndian_PutUint32_def bit_simps)
  next
    case 3
    then show ?thesis
      by (auto simp: LittleEndian_Uint32_def LittleEndian_PutUint32_def bit_simps)
  next
    case 4
    then show ?thesis using n
      by (auto simp: LittleEndian_Uint32_def LittleEndian_PutUint32_def bit_simps)
  qed
qed

lemma run_length_spec:
  assumes "count \<le> 256" "i + count \<le> img_width im * img_height im"
  shows "count \<le> run_length im c i count \<and> run_length im c i count \<le> 256 \<and>
         i + run_length im c i count \<le> img_width im * img_height im \<and>
         (\<forall>k. i + count \<le> k \<and> k < i + run_length im c i count \<longrightarrow> pixel_at im k = c) \<and>
         (run_length im c i count = 256 \<or>
          i + run_length im c i count = img_width im * img_height im \<or>
          pixel_at im (i + run_length im c i count) \<noteq> c)"
  using assms
proof (induction im c i count rule: run_length.induct)
  case (1 im c i count)
  let ?n = "img_width im * img_height im"
  show ?case
  proof (cases "i + count \<ge> ?n")
    case True
    then have "run_length im c i count = count" by (subst run_length.simps) simp
    then show ?thesis using True "1.prems" by auto
  next
    case False
    note lt = this
    show ?thesis
    proof (cases "c \<noteq> pixel_at im (i + count)")
      case True
      then have "run_length im c i count = count"
        using lt by (subst run_length.simps) (simp add: pixel_at_def)
      then show ?thesis using True "1.prems" by auto
    next
      case False
      then have same: "pixel_at im (i + count) = c" by simp
      show ?thesis
      proof (cases "count + 1 \<ge> 256")
        case True
        then have r: "run_length im c i count = 256"
          using lt same by (subst run_length.simps) (simp add: pixel_at_def)
        have c255: "255 \<le> count" using True by simp
        have "\<forall>k. i + count \<le> k \<and> k < i + 256 \<longrightarrow> pixel_at im k = c"
        proof (intro allI impI)
          fix k assume "i + count \<le> k \<and> k < i + 256"
          then have "k = i + count" using c255 by linarith
          then show "pixel_at im k = c" using same by simp
        qed
        then show ?thesis using r lt c255 "1.prems"(1) by simp
      next
        case False
        then have r: "run_length im c i count = run_length im c i (count + 1)"
          using lt same by (subst run_length.simps) (simp add: pixel_at_def)
        have IH: "count + 1 \<le> run_length im c i (count + 1) \<and>
           run_length im c i (count + 1) \<le> 256 \<and>
           i + run_length im c i (count + 1) \<le> ?n \<and>
           (\<forall>k. i + (count + 1) \<le> k \<and> k < i + run_length im c i (count + 1)
                \<longrightarrow> pixel_at im k = c) \<and>
           (run_length im c i (count + 1) = 256 \<or>
            i + run_length im c i (count + 1) = ?n \<or>
            pixel_at im (i + run_length im c i (count + 1)) \<noteq> c)"
          using lt same False by (intro "1.IH") (simp_all add: pixel_at_def)
        have "\<forall>k. i + count \<le> k \<and> k < i + run_length im c i (count + 1)
                \<longrightarrow> pixel_at im k = c"
        proof (intro allI impI)
          fix k assume k: "i + count \<le> k \<and> k < i + run_length im c i (count + 1)"
          show "pixel_at im k = c"
          proof (cases "k = i + count")
            case True
            then show ?thesis using same by simp
          next
            case False
            then have "i + (count + 1) \<le> k" using k by simp
            then show ?thesis using IH k by blast
          qed
        qed
        then show ?thesis unfolding r using IH by simp
      qed
    qed
  qed
qed

lemma encode_loop_done:
  "\<not> i < img_width im * img_height im \<Longrightarrow> encode_loop im hasAlpha i = []"
  by (subst encode_loop.simps) simp

lemma encode_loop_step:
  "i < img_width im * img_height im \<Longrightarrow>
   encode_loop im hasAlpha i =
     (i, count_byte (run_length im (pixel_at im i) i 1) # pixel_bytes hasAlpha (pixel_at im i))
       # encode_loop im hasAlpha (i + run_length im (pixel_at im i) i 1)"
  by (subst encode_loop.simps) (simp add: Let_def pixel_at_def pixel_bytes_def count_byte_def)

subsection \<open>Runs\<close>

lemma run_length_first_bounds:
  assumes "i < img_width im * img_height im"
  shows "1 \<le> run_length im c i 1" "run_length im c i 1 \<le> 256"
    "i + run_length im c i 1 \<le> img_width im * img_height im"
proof -
  have "1 \<le> run_length im c i 1 \<and> run_length im c i 1 \<le> 256 \<and>
         i + run_length im c i 1 \<le> img_width im * img_height im \<and>
         (\<forall>k. i + 1 \<le> k \<and> k < i + run_length im c i 1 \<longrightarrow> pixel_at im k = c) \<and>
         (run_length im c i 1 = 256 \<or>
          i + run_length im c i 1 = img_width im * img_height im \<or>
          pixel_at im (i + run_length im c i 1) \<noteq> c)"
    using assms by (intro run_length_spec) simp_all
  then show "1 \<le> run_length im c i 1" "run_length im c i 1 \<le> 256"
    "i + run_length im c i 1 \<le> img_width im * img_height im"
    by blast+
qed

lemma run_length_first_same:
  assumes "i < img_width im * img_height im" "i \<le> k" "k < i + run_length im (pixel_at im i) i 1"
  shows "pixel_at im k = pixel_at im i"
proof (cases "k = i")
  case True
  then show ?thesis by simp
next
  case False
  let ?c = "pixel_at im i"
  have "1 \<le> run_length im ?c i 1 \<and> run_length im ?c i 1 \<le> 256 \<and>
         i + run_length im ?c i 1 \<le> img_width im * img_height im \<and>
         (\<forall>k. i + 1 \<le> k \<and> k < i + run_length im ?c i 1 \<longrightarrow> pixel_at im k = ?c) \<and>
         (run_length im ?c i 1 = 256 \<or>
          i + run_length im ?c i 1 = img_width im * img_height im \<or>
          pixel_at im (i + run_length im ?c i 1) \<noteq> ?c)"
    using assms(1) by (intro run_length_spec) simp_all
  then have all: "\<forall>k. i + 1 \<le> k \<and> k < i + run_length im ?c i 1 \<longrightarrow> pixel_at im k = ?c"
    by blast
  have "i + 1 \<le> k" using False assms(2) by linarith
  then show ?thesis using all assms(3) by blast
qed

lemma run_length_first_maximal:
  assumes "i < img_width im * img_height im"
  shows "run_length im c i 1 = 256 \<or>
          i + run_length im c i 1 = img_width im * img_height im \<or>
          pixel_at im (i + run_length im c i 1) \<noteq> c"
proof -
  have "1 \<le> run_length im c i 1 \<and> run_length im c i 1 \<le> 256 \<and>
         i + run_length im c i 1 \<le> img_width im * img_height im \<and>
         (\<forall>k. i + 1 \<le> k \<and> k < i + run_length im c i 1 \<longrightarrow> pixel_at im k = c) \<and>
         (run_length im c i 1 = 256 \<or>
          i + run_length im c i 1 = img_width im * img_height im \<or>
          pixel_at im (i + run_length im c i 1) \<noteq> c)"
    using assms by (intro run_length_spec) simp_all
  then show ?thesis by blast
qed

lemma run_length_exact:
  assumes "i + n \<le> img_width im * img_height im" "1 \<le> n" "n \<le> 256"
    and same: "\<And>k. i \<le> k \<Longrightarrow> k < i + n \<Longrightarrow> pixel_at im k = pixel_at im i"
    and "n = 256 \<or> i + n = img_width im * img_height im \<or> pixel_at im (i + n) \<noteq> pixel_at im i"
  shows "run_length im (pixel_at im i) i 1 = n"
proof -
  let ?m = "run_length im (pixel_at im i) i 1"
  have lt: "i < img_width im * img_height im" using assms(1,2) by linarith
  note b = run_length_first_bounds [OF lt, of "pixel_at im i"]
  have "\<not> ?m < n"
  proof
    assume less: "?m < n"
    have "?m \<noteq> 256" using less assms(3) by linarith
    moreover have "i + ?m \<noteq> img_width im * img_height im" using less assms(1) by linarith
    ultimately have "pixel_at im (i + ?m) \<noteq> pixel_at im i"
      using run_length_first_maximal [OF lt, of "pixel_at im i"] by blast
    moreover have "pixel_at im (i + ?m) = pixel_at im i"
      by (rule same) (use less in linarith)+
    ultimately show False by blast
  qed
  moreover have "\<not> n < ?m"
  proof
    assume less: "n < ?m"
    have "n \<noteq> 256" using less b(2) by linarith
    moreover have "i + n \<noteq> img_width im * img_height im" using less b(3) by linarith
    ultimately have "pixel_at im (i + n) \<noteq> pixel_at im i" using assms(5) by blast
    moreover have "pixel_at im (i + n) = pixel_at im i"
      by (rule run_length_first_same [OF lt]) (use less in linarith)+
    ultimately show False by blast
  qed
  ultimately show ?thesis by linarith
qed

lemma encode_loop_reaches:
  assumes "i \<le> p" "p \<le> img_width im * img_height im"
    and "p = i \<or> pixel_at im (p - 1) \<noteq> pixel_at im p"
  shows "\<exists>pre. encode_loop im a i = pre @ encode_loop im a p \<and> (\<forall>e \<in> set pre. fst e < p)"
  using assms
proof (induction "p - i" arbitrary: i rule: less_induct)
  case less
  show ?case
  proof (cases "p = i")
    case True
    then have "encode_loop im a i = [] @ encode_loop im a p \<and> (\<forall>e \<in> set []. fst e < p)"
      by simp
    then show ?thesis by blast
  next
    case False
    then have ip: "i < p" using less.prems(1) by linarith
    then have lt: "i < img_width im * img_height im" using less.prems(2) by linarith
    have bnd: "pixel_at im (p - 1) \<noteq> pixel_at im p" using False less.prems(3) by blast
    let ?m = "run_length im (pixel_at im i) i 1"
    note b = run_length_first_bounds [OF lt, of "pixel_at im i"]
    have le: "i + ?m \<le> p"
    proof (rule ccontr)
      assume n: "\<not> i + ?m \<le> p"
      have "pixel_at im (p - 1) = pixel_at im i"
        by (rule run_length_first_same [OF lt]) (use n ip in linarith)+
      moreover have "pixel_at im p = pixel_at im i"
        by (rule run_length_first_same [OF lt]) (use n ip in linarith)+
      ultimately show False using bnd by metis
    qed
    have meas: "p - (i + ?m) < p - i" using b(1) ip by linarith
    have "p = i + ?m \<or> pixel_at im (p - 1) \<noteq> pixel_at im p" using bnd by blast
    from less.hyps [OF meas le less.prems(2) this]
    obtain pre where pre: "encode_loop im a (i + ?m) = pre @ encode_loop im a p"
      "\<forall>e \<in> set pre. fst e < p" by blast
    let ?e = "(i, count_byte ?m # pixel_bytes a (pixel_at im i))"
    have "encode_loop im a i = (?e # pre) @ encode_loop im a p"
      using encode_loop_step [OF lt, of a] pre(1) by simp
    moreover have "\<forall>e \<in> set (?e # pre). fst e < p" using pre(2) ip by simp
    ultimately show ?thesis by blast
  qed
qed

lemma count_byte_256 [simp]: "count_byte 256 = 0"
  by (simp add: count_byte_def)

lemma count_byte_1 [simp]: "count_byte (Suc 0) = 1"
  by (simp add: count_byte_def)

text \<open>
  Claim C5. Let the pixels \<open>p, \<dots>, p + 255\<close> of the image have one colour \<open>c\<close>, with the run
  starting at \<open>p\<close> (\<open>p\<close> is the first pixel, or the pixel before it has another colour).
  If the run ends after these 256 pixels, the encoder emits it as one run with count byte 0
  and goes on at \<open>p + 256\<close>. If it ends after 257 pixels, the encoder emits two runs, with
  count bytes 0 and 1, and goes on at \<open>p + 257\<close>.
\<close>

theorem encode_run_of_256_and_257:
  assumes inside: "p + 256 \<le> img_width im * img_height im"
    and same: "\<forall>k. p \<le> k \<and> k < p + 256 \<longrightarrow> pixel_at im k = c"
    and start: "p = 0 \<or> pixel_at im (p - 1) \<noteq> c"
  shows "(p + 256 = img_width im * img_height im \<or> pixel_at im (p + 256) \<noteq> c \<longrightarrow>
           (\<exists>pre. encode_loop im a 0 =
                    pre @ (p, 0 # pixel_bytes a c) # encode_loop im a (p + 256) \<and>
                  (\<forall>e \<in> set pre. fst e < p))) \<and>
         (p + 257 \<le> img_width im * img_height im \<and> pixel_at im (p + 256) = c \<and>
          (p + 257 = img_width im * img_height im \<or> pixel_at im (p + 257) \<noteq> c) \<longrightarrow>
           (\<exists>pre. encode_loop im a 0 =
                    pre @ (p, 0 # pixel_bytes a c) # (p + 256, 1 # pixel_bytes a c)
                        # encode_loop im a (p + 257) \<and>
                  (\<forall>e \<in> set pre. fst e < p)))"
proof -
  let ?n = "img_width im * img_height im"
  have cp: "pixel_at im p = c" using same by simp
  have lt: "p < ?n" using inside by linarith
  have "p = 0 \<or> pixel_at im (p - 1) \<noteq> pixel_at im p" using start cp by simp
  then obtain pre where pre: "encode_loop im a 0 = pre @ encode_loop im a p"
      "\<forall>e \<in> set pre. fst e < p"
    using encode_loop_reaches [of 0 p im a] lt by auto
  have k256: "pixel_at im k = pixel_at im p" if "p \<le> k" "k < p + 256" for k
    using same that cp by simp
  have r1: "run_length im (pixel_at im p) p 1 = 256"
  proof (rule run_length_exact)
    show "p + 256 \<le> ?n" by (rule inside)
    show "\<And>k. p \<le> k \<Longrightarrow> k < p + 256 \<Longrightarrow> pixel_at im k = pixel_at im p" by (rule k256)
  qed simp_all
  have s1: "encode_loop im a p = (p, 0 # pixel_bytes a c) # encode_loop im a (p + 256)"
    using encode_loop_step [OF lt, of a] r1 cp by simp
  have part1: "\<exists>pre. encode_loop im a 0 =
                    pre @ (p, 0 # pixel_bytes a c) # encode_loop im a (p + 256) \<and>
                  (\<forall>e \<in> set pre. fst e < p)"
    using pre s1 by auto
  have part2: "\<exists>pre. encode_loop im a 0 =
                    pre @ (p, 0 # pixel_bytes a c) # (p + 256, 1 # pixel_bytes a c)
                        # encode_loop im a (p + 257) \<and>
                  (\<forall>e \<in> set pre. fst e < p)"
    if h: "p + 257 \<le> ?n" "pixel_at im (p + 256) = c"
       "p + 257 = ?n \<or> pixel_at im (p + 257) \<noteq> c"
  proof -
    have lt2: "p + 256 < ?n" using h(1) by linarith
    have r2: "run_length im (pixel_at im (p + 256)) (p + 256) 1 = 1"
    proof (rule run_length_exact)
      show "p + 256 + 1 \<le> ?n" using h(1) by linarith
      show "\<And>k. p + 256 \<le> k \<Longrightarrow> k < p + 256 + 1 \<Longrightarrow>
              pixel_at im k = pixel_at im (p + 256)"
      proof -
        fix k assume "p + 256 \<le> k" "k < p + 256 + 1"
        then have "k = p + 256" by linarith
        then show "pixel_at im k = pixel_at im (p + 256)" by simp
      qed
      have e: "p + 256 + 1 = p + 257" by simp
      show "(1::nat) = 256 \<or> p + 256 + 1 = ?n \<or>
            pixel_at im (p + 256 + 1) \<noteq> pixel_at im (p + 256)"
        unfolding e using h(2,3) by simp
    qed simp_all
    have s2: "encode_loop im a (p + 256) =
                (p + 256, 1 # pixel_bytes a c) # encode_loop im a (p + 257)"
    proof -
      have e: "p + 256 + 1 = p + 257" by simp
      have "encode_loop im a (p + 256) =
              (p + 256, count_byte 1 # pixel_bytes a (pixel_at im (p + 256)))
                # encode_loop im a (p + 256 + 1)"
        using encode_loop_step [OF lt2, of a] by (simp only: r2)
      then show ?thesis unfolding e by (simp add: h(2))
    qed
    show ?thesis using pre s1 s2 by auto
  qed
  show ?thesis using part1 part2 by blast
qed

lemma pixel_at_solid: "pixel_at (solid n) k = RGBA 0x11 0x22 0x33 0xff"
  by (simp add: pixel_at_def getRGBA_def solid_def)

theorem encode_run_of_256_and_257_witness:
  "encode_loop (solid 256) False 0 = [(0, [0, 0x33, 0x22, 0x11])] \<and>
   encode_loop (solid 257) False 0 = [(0, [0, 0x33, 0x22, 0x11]), (256, [1, 0x33, 0x22, 0x11])]"
proof -
  have d: "img_width (solid n) * img_height (solid n) = n" for n
    by (simp add: solid_def)
  have e256: "encode_loop (solid 256) False 256 = []"
    by (rule encode_loop_done) (simp add: d)
  have e257: "encode_loop (solid 257) False 257 = []"
    by (rule encode_loop_done) (simp add: d)
  have a: "\<exists>pre. encode_loop (solid 256) False 0 =
             pre @ (0, 0 # pixel_bytes False (RGBA 0x11 0x22 0x33 0xff))
                 # encode_loop (solid 256) False (0 + 256) \<and> (\<forall>e \<in> set pre. fst e < 0)"
    using encode_run_of_256_and_257 [of 0 "solid 256" "RGBA 0x11 0x22 0x33 0xff" False]
    by (simp add: d pixel_at_solid)
  have b: "\<exists>pre. encode_loop (solid 257) False 0 =
             pre @ (0, 0 # pixel_bytes False (RGBA 0x11 0x22 0x33 0xff))
                 # (0 + 256, 1 # pixel_bytes False (RGBA 0x11 0x22 0x33 0xff))
                 # encode_loop (solid 257) False (0 + 257) \<and> (\<forall>e \<in> set pre. fst e < 0)"
    using encode_run_of_256_and_257 [of 0 "solid 257" "RGBA 0x11 0x22 0x33 0xff" False]
    by (simp add: d pixel_at_solid)
  from a obtain pre where "encode_loop (solid 256) False 0 =
             pre @ (0, 0 # pixel_bytes False (RGBA 0x11 0x22 0x33 0xff))
                 # encode_loop (solid 256) False (0 + 256)" "\<forall>e \<in> set pre. fst e < 0"
    by blast
  moreover from this have "pre = []" by (cases pre) auto
  ultimately have A: "encode_loop (solid 256) False 0 = [(0, [0, 0x33, 0x22, 0x11])]"
    using e256 by (simp add: pixel_bytes_def)
  from b obtain pre where "encode_loop (solid 257) False 0 =
             pre @ (0, 0 # pixel_bytes False (RGBA 0x11 0x22 0x33 0xff))
                 # (0 + 256, 1 # pixel_bytes False (RGBA 0x11 0x22 0x33 0xff))
                 # encode_loop (solid 257) False (0 + 257)" "\<forall>e \<in> set pre. fst e < 0"
    by blast
  moreover from this have "pre = []" by (cases pre) auto
  ultimately have B: "encode_loop (solid 257) False 0 =
      [(0, [0, 0x33, 0x22, 0x11]), (256, [1, 0x33, 0x22, 0x11])]"
    using e257 by (simp add: pixel_bytes_def)
  show ?thesis using A B by simp
qed

subsection \<open>The header written\<close>

lemma length_PutUint32 [simp]: "length (LittleEndian_PutUint32 v) = 4"
  by (simp add: LittleEndian_PutUint32_def)

lemma PngToData_header:
  "header_width (PngToData im) = of_nat (img_width im)"
  "header_height (PngToData im) = of_nat (img_height im)"
  "header_alphaFlag (PngToData im) = (if hasAlphaChannel im then 1 else 0)"
  "drop 12 (PngToData im) = concat (map snd (encode_loop im (hasAlphaChannel im) 0))"
  "12 \<le> length (PngToData im)"
  by (simp_all add: PngToData_def Let_def header_width_def header_height_def
        header_alphaFlag_def LittleEndian_roundtrip)

lemma hasAlphaChannel_iff:
  "hasAlphaChannel im \<longleftrightarrow>
     (kind im = image_RGBA \<or> kind im = image_NRGBA) \<and>
     (\<exists>y < img_height im. \<exists>x < img_width im. alpha16 (At im x y) < 0xffff)"
proof -
  have "(case At im x y of (r16, g16, b16, a16) \<Rightarrow> a16 < 0xffff) =
        (alpha16 (At im x y) < 0xffff)" for x y
    by (cases "At im x y") simp
  moreover have "list_ex P [0..<n] \<longleftrightarrow> (\<exists>x<n. P x)" for P :: "nat \<Rightarrow> bool" and n
    by (auto simp: list_ex_iff)
  ultimately show ?thesis
    by (simp add: hasAlphaChannel_def)
qed

text \<open>
  What the code computes: the alpha flag \<^verbatim>\<open>PngToData\<close> writes into the header is non-zero
  exactly when the image is of one of the two types of the type switch of
  \<^verbatim>\<open>hasAlphaChannel\<close> (\<^verbatim>\<open>*image.RGBA\<close>, \<^verbatim>\<open>*image.NRGBA\<close>) and the alpha of at least one
  pixel is below \<^verbatim>\<open>0xffff\<close>. So an image whose pixels are all fully opaque gets the flag 0,
  and so does every image of another type.
\<close>

lemma PngToData_alphaFlag_type_switch:
  "(header_alphaFlag (PngToData im) \<noteq> 0 \<longleftrightarrow>
      (kind im = image_RGBA \<or> kind im = image_NRGBA) \<and>
      (\<exists>y < img_height im. \<exists>x < img_width im. alpha16 (At im x y) < 0xffff)) \<and>
   ((\<forall>y < img_height im. \<forall>x < img_width im. alpha16 (At im x y) = 0xffff) \<longrightarrow>
      header_alphaFlag (PngToData im) = 0)"
proof -
  have "header_alphaFlag (PngToData im) \<noteq> 0 \<longleftrightarrow> hasAlphaChannel im"
    by (simp add: PngToData_header)
  then show ?thesis
    unfolding hasAlphaChannel_iff by auto
qed

text \<open>
  Claim C8 fails on the code. The pixel types \<^verbatim>\<open>*image.NRGBA64\<close> (what \<^verbatim>\<open>png.Decode\<close> returns
  for a PNG of 16-bit truecolour with alpha) and \<^verbatim>\<open>*image.Paletted\<close> (a PNG with a palette,
  whose entries may be transparent) store an alpha value for every pixel, but they are not
  among the types of the type switch of \<^verbatim>\<open>hasAlphaChannel\<close>. The image \<open>translucent64\<close> has
  a pixel of alpha \<^verbatim>\<open>0x8080\<close>, and the image \<open>transparent_paletted\<close> a pixel of alpha 0; for
  both the alpha flag written is 0. The pixels of \<open>translucent64\<close> in an \<^verbatim>\<open>*image.NRGBA\<close>
  get the flag 1.
\<close>

theorem PngToData_alphaFlag_other_types:
  "kind translucent64 = image_NRGBA64 \<and>
   alpha16 (At translucent64 0 0) = 0x8080 \<and>
   hasAlphaChannel translucent64 = False \<and>
   header_alphaFlag (PngToData translucent64) = 0 \<and>
   header_alphaFlag (PngToData (translucent64\<lparr>kind := image_NRGBA\<rparr>)) = 1 \<and>
   kind transparent_paletted = image_Paletted \<and>
   alpha16 (At transparent_paletted 0 0) = 0 \<and>
   hasAlphaChannel transparent_paletted = False \<and>
   header_alphaFlag (PngToData transparent_paletted) = 0"
  by code_simp

subsection \<open>Later iterations and earlier pixels\<close>

lemma decode_loop_keeps_below:
  "dinv w h st \<Longrightarrow> decode_loop (w * h) hasAlpha st = (r, st') \<Longrightarrow> k < cursor st \<Longrightarrow>
   Pix (img st') ! k = Pix (img st) ! k"
proof (induction "w * h - cursor st" arbitrary: st rule: less_induct)
  case less
  show ?case
  proof (cases "cursor st < w * h")
    case False
    then show ?thesis using less.prems by (simp add: decode_loop_done)
  next
    case True
    obtain res rd where rr: "read_run hasAlpha (input st) = (res, rd)"
      by (cases "read_run hasAlpha (input st)")
    show ?thesis
    proof (cases res)
      case (Inl e)
      then show ?thesis
        using less.prems True rr by (auto simp: decode_loop_stop)
    next
      case (Inr p)
      obtain count c where p: "p = (count, c)" by (cases p)
      let ?n = "min count (w * h - cursor st)"
      let ?st1 = "\<lparr>cursor = cursor st + ?n,
        img = paint (img st) (cursor st) ?n c,
        input = rd,
        writes = writes st @ run_coords (Dx (img st)) (cursor st) ?n\<rparr>"
      have pos: "0 < count" using rr Inr p read_run_count_pos by blast
      then have npos: "0 < ?n" using True by simp
      have step: "decode_loop (w * h) hasAlpha st = decode_loop (w * h) hasAlpha ?st1"
        using True rr Inr p by (simp add: decode_loop_run)
      have app: "run_coords w 0 (cursor st) @ run_coords w (cursor st) ?n =
                 run_coords w 0 (cursor st + ?n)"
        using run_coords_append [of w 0 "cursor st" ?n] by simp
      have le1: "cursor st + ?n \<le> w * h" using True by simp
      have inv1: "dinv w h ?st1"
        using less.prems(1) app le1 by (simp add: dinv_def)
      have meas: "w * h - cursor ?st1 < w * h - cursor st"
        using npos True by simp
      have res1: "decode_loop (w * h) hasAlpha ?st1 = (r, st')"
        using less.prems(2) step by simp
      have k1: "k < cursor ?st1" using less.prems(3) by simp
      have "Pix (img st') ! k = Pix (img ?st1) ! k"
        by (rule less.hyps [OF meas inv1 res1 k1])
      also have "Pix (img ?st1) ! k = Pix (img st) ! k"
      proof -
        have kk: "k < Dx (img st) * Dy (img st)" using less.prems(1,3) by (simp add: dinv_def)
        have "Pix (paint (img st) (cursor st) ?n c) ! k =
              (if cursor st \<le> k \<and> k < cursor st + ?n then c else Pix (img st) ! k)"
          using less.prems(1) le1 kk by (intro paint_nth) (simp_all add: dinv_def)
        then show ?thesis using less.prems(3) by simp
      qed
      finally show ?thesis .
    qed
  qed
qed

lemma encode_loop_entries:
  "e \<in> set (encode_loop im a i) \<Longrightarrow>
   \<exists>k. i \<le> k \<and> k < img_width im * img_height im \<and>
       e = (k, count_byte (run_length im (pixel_at im k) k 1) # pixel_bytes a (pixel_at im k))"
proof (induction "img_width im * img_height im - i" arbitrary: i rule: less_induct)
  case less
  show ?case
  proof (cases "i < img_width im * img_height im")
    case False
    then show ?thesis using less.prems by (simp add: encode_loop_done)
  next
    case True
    let ?m = "run_length im (pixel_at im i) i 1"
    let ?e = "(i, count_byte ?m # pixel_bytes a (pixel_at im i))"
    have "e = ?e \<or> e \<in> set (encode_loop im a (i + ?m))"
      using less.prems encode_loop_step [OF True, of a] by simp
    then show ?thesis
    proof
      assume "e = ?e"
      then show ?thesis using True by blast
    next
      assume mem: "e \<in> set (encode_loop im a (i + ?m))"
      have meas: "img_width im * img_height im - (i + ?m) < img_width im * img_height im - i"
        using run_length_first_bounds(1) [OF True, of "pixel_at im i"] True by linarith
      from less.hyps [OF meas mem]
      obtain k where "i + ?m \<le> k" "k < img_width im * img_height im"
        "e = (k, count_byte (run_length im (pixel_at im k) k 1) # pixel_bytes a (pixel_at im k))"
        by blast
      moreover from this have "i \<le> k" by linarith
      ultimately show ?thesis by blast
    qed
  qed
qed

subsection \<open>Runs of transparent pixels\<close>

text \<open>
  Claim C6. In alpha mode, an iteration of the encoder whose alpha byte (the second byte it
  writes) is 0 writes two bytes, the count byte and the alpha byte. When the decoder, in
  alpha mode, finds a count byte followed by an alpha byte 0, it reads these two bytes only,
  and every pixel of the span of the run (the count, clamped to the pixels left) is
  \<open>RGBA 0 0 0 0\<close> in the canvas the loop ends with.
\<close>

theorem alpha_zero_run:
  "(\<forall>e \<in> set (encode_loop im True i). snd e ! 1 = 0 \<longrightarrow> (\<exists>cb. snd e = [cb, 0])) \<and>
   (dinv w h st \<and> cursor st < w * h \<and> input st = cb # 0 # rest \<and>
    decode_loop (w * h) True st = (r, st') \<longrightarrow>
      read_run True (input st) =
        (Inr (if unat cb = 0 then 256 else unat cb, RGBA 0 0 0 0), rest) \<and>
      (\<forall>k. cursor st \<le> k \<and>
           k < cursor st + min (if unat cb = 0 then 256 else unat cb) (w * h - cursor st)
           \<longrightarrow> Pix (img st') ! k = RGBA 0 0 0 0))"
proof (intro conjI ballI impI)
  fix e assume e: "e \<in> set (encode_loop im True i)" and z: "snd e ! 1 = 0"
  obtain k where k: "e = (k, count_byte (run_length im (pixel_at im k) k 1)
                             # pixel_bytes True (pixel_at im k))"
    using encode_loop_entries [OF e] by blast
  have "A (pixel_at im k) = 0"
    using z k by (simp add: pixel_bytes_def split: if_splits)
  then show "\<exists>cb. snd e = [cb, 0]"
    using k by (simp add: pixel_bytes_def)
next
  assume a: "dinv w h st \<and> cursor st < w * h \<and> input st = cb # 0 # rest \<and>
    decode_loop (w * h) True st = (r, st')"
  let ?count = "if unat cb = 0 then 256 else unat cb"
  let ?n = "min ?count (w * h - cursor st)"
  let ?c = "RGBA 0 0 0 0"
  show rr: "read_run True (input st) = (Inr (?count, ?c), rest)"
    using a by (simp add: read_run_def Read1_def)
  let ?st1 = "\<lparr>cursor = cursor st + ?n,
        img = paint (img st) (cursor st) ?n ?c,
        input = rest,
        writes = writes st @ run_coords (Dx (img st)) (cursor st) ?n\<rparr>"
  have lt: "cursor st < w * h" and inv: "dinv w h st" using a by simp_all
  have step: "decode_loop (w * h) True st = decode_loop (w * h) True ?st1"
    by (rule decode_loop_run [OF lt rr])
  have res1: "decode_loop (w * h) True ?st1 = (r, st')" using a step by simp
  have app: "run_coords w 0 (cursor st) @ run_coords w (cursor st) ?n =
                 run_coords w 0 (cursor st + ?n)"
    using run_coords_append [of w 0 "cursor st" ?n] by simp
  have le1: "cursor st + ?n \<le> w * h" using lt by simp
  have inv1: "dinv w h ?st1"
    using inv app le1 by (simp add: dinv_def)
  show "\<forall>k. cursor st \<le> k \<and> k < cursor st + ?n \<longrightarrow> Pix (img st') ! k = ?c"
  proof (intro allI impI)
    fix k assume k: "cursor st \<le> k \<and> k < cursor st + ?n"
    have k1: "k < cursor ?st1" using k by simp
    have kk: "k < Dx (img st) * Dy (img st)" using k le1 inv by (simp add: dinv_def)
    have "Pix (img st') ! k = Pix (img ?st1) ! k"
      by (rule decode_loop_keeps_below [OF inv1 res1 k1])
    also have "\<dots> = Pix (paint (img st) (cursor st) ?n ?c) ! k" by simp
    also have "\<dots> = (if cursor st \<le> k \<and> k < cursor st + ?n then ?c else Pix (img st) ! k)"
      using inv le1 kk by (intro paint_nth) (simp_all add: dinv_def)
    also have "\<dots> = ?c" using k by simp
    finally show "Pix (img st') ! k = ?c" .
  qed
qed

theorem alpha_zero_run_witness:
  "encode_loop two_pixels True 0 = [(0, [1, 0]), (1, [1, 0xff, 0x33, 0x22, 0x11])] \<and>
   Pix (img (snd (decode_loop (2 * 1) True \<lparr>cursor = 0,
          img = \<lparr>Dx = 2, Dy = 1, Pix = [RGBA 1 2 3 4, RGBA 1 2 3 4]\<rparr>,
          input = [7, 0, 9], writes = []\<rparr>))) ! 1 = RGBA 0 0 0 0"
proof -
  let ?st = "\<lparr>cursor = 0,
          img = \<lparr>Dx = 2, Dy = 1, Pix = [RGBA 1 2 3 4, RGBA 1 2 3 4]\<rparr>,
          input = [7, 0, 9 :: byte], writes = []\<rparr>"
  have enc: "encode_loop two_pixels True 0 = [(0, [1, 0]), (1, [1, 0xff, 0x33, 0x22, 0x11])]"
    by code_simp
  have inv: "dinv 2 1 ?st" by (simp add: dinv_def run_coords_def)
  obtain r st' where res: "decode_loop (2 * 1) True ?st = (r, st')"
    by (cases "decode_loop (2 * 1) True ?st")
  have "\<forall>k. cursor ?st \<le> k \<and>
           k < cursor ?st + min (if unat (7 :: byte) = 0 then 256 else unat (7 :: byte))
                 (2 * 1 - cursor ?st)
           \<longrightarrow> Pix (img st') ! k = RGBA 0 0 0 0"
    using alpha_zero_run [of two_pixels 0 2 1 ?st 7 "[9]" r st'] inv res by simp
  then have "Pix (img st') ! 1 = RGBA 0 0 0 0" by simp
  then show ?thesis using enc res by simp
qed

subsection \<open>Termination\<close>

lemma encode_loop_length:
  "length (encode_loop im a i) \<le> img_width im * img_height im - i"
proof (induction "img_width im * img_height im - i" arbitrary: i rule: less_induct)
  case less
  show ?case
  proof (cases "i < img_width im * img_height im")
    case False
    then show ?thesis by (simp add: encode_loop_done)
  next
    case True
    let ?m = "run_length im (pixel_at im i) i 1"
    note b = run_length_first_bounds [OF True, of "pixel_at im i"]
    have meas: "img_width im * img_height im - (i + ?m) < img_width im * img_height im - i"
      using b(1) True by linarith
    have "length (encode_loop im a (i + ?m)) \<le> img_width im * img_height im - (i + ?m)"
      by (rule less.hyps [OF meas])
    then show ?thesis
      using encode_loop_step [OF True, of a] b(1) True by simp
  qed
qed

text \<open>
  Claim C10. Both loops of the codec, and the look-ahead loop of the encoder, terminate on
  every input: every argument is in the domain of the recursion that models the loop (the
  part on which the recursion is well-founded). The reasons are the ones the claim gives: a
  run read by the decoder has a count of at least 1, and clamping it to the pixels left
  keeps it at least 1 while pixels are left, so the cursor grows and stays within the
  canvas; a run of the encoder covers at least 1 and at most 256 pixels and does not pass
  the end of the image, so the encoder makes at most as many iterations as pixels are left.
\<close>

theorem codec_loops_terminate:
  "decode_loop_dom (npix, hasAlpha, st) \<and>
   encode_loop_dom (im, a, i) \<and>
   run_length_dom (im, c, i, count) \<and>
   (cursor st < npix \<and> read_run hasAlpha (input st) = (Inr (n, col), rd) \<longrightarrow>
      1 \<le> n \<and> 1 \<le> min n (npix - cursor st) \<and>
      cursor st < cursor st + min n (npix - cursor st) \<and>
      cursor st + min n (npix - cursor st) \<le> npix) \<and>
   (i < img_width im * img_height im \<longrightarrow>
      1 \<le> run_length im c i 1 \<and> run_length im c i 1 \<le> 256 \<and>
      i < i + run_length im c i 1 \<and>
      i + run_length im c i 1 \<le> img_width im * img_height im) \<and>
   length (encode_loop im a i) \<le> img_width im * img_height im - i"
proof (intro conjI impI)
  show "decode_loop_dom (npix, hasAlpha, st)" using decode_loop_dom_all by blast
  show "encode_loop_dom (im, a, i)" using encode_loop_dom_all by blast
  show "run_length_dom (im, c, i, count)" using run_length_dom_all by blast
  show "length (encode_loop im a i) \<le> img_width im * img_height im - i"
    by (rule encode_loop_length)
next
  assume h: "cursor st < npix \<and> read_run hasAlpha (input st) = (Inr (n, col), rd)"
  then have pos: "0 < n" using read_run_count_pos by blast
  have lt: "cursor st < npix" using h by blast
  show "1 \<le> n" using pos by linarith
  show "1 \<le> min n (npix - cursor st)" using pos lt by linarith
  show "cursor st < cursor st + min n (npix - cursor st)" using pos lt by linarith
  show "cursor st + min n (npix - cursor st) \<le> npix" using lt by linarith
next
  assume h: "i < img_width im * img_height im"
  note b = run_length_first_bounds [OF h, of c]
  show "1 \<le> run_length im c i 1" by (rule b(1))
  show "run_length im c i 1 \<le> 256" by (rule b(2))
  show "i < i + run_length im c i 1" using b(1) by simp
  show "i + run_length im c i 1 \<le> img_width im * img_height im" by (rule b(3))
qed

theorem codec_loops_terminate_witness:
  "decode_loop_dom (2, False,
      \<lparr>cursor = 0, img = \<lparr>Dx = 2, Dy = 1, Pix = [RGBA 0 0 0 255, RGBA 0 0 0 255]\<rparr>,
       input = [0, 1, 2, 3, 4], writes = []\<rparr>) \<and>
   encode_loop_dom (two_pixels, True, 0) \<and>
   run_length_dom (two_pixels, RGBA 0 0 0 0, 0, 1) \<and>
   read_run False [0, 1, 2, 3, 4] = (Inr (256, RGBA 3 2 1 255), [4]) \<and>
   min 256 (2 - 0) = (2 :: nat) \<and>
   run_length two_pixels (RGBA 0 0 0 0) 0 1 = 1 \<and>
   length (encode_loop two_pixels True 0) = 2"
proof -
  let ?st = "\<lparr>cursor = 0, img = \<lparr>Dx = 2, Dy = 1, Pix = [RGBA 0 0 0 255, RGBA 0 0 0 255]\<rparr>,
       input = [0, 1, 2, 3, 4 :: byte], writes = []\<rparr>"
  have rr: "read_run False [0, 1, 2, 3, 4] = (Inr (256, RGBA 3 2 1 255), [4])"
    by (simp add: read_run_def Read1_def ReadFull_def)
  have rl: "run_length two_pixels (RGBA 0 0 0 0) 0 1 = 1" by code_simp
  have el: "length (encode_loop two_pixels True 0) = 2" by code_simp
  show ?thesis
    using codec_loops_terminate [of 2 False ?st two_pixels True 0 "RGBA 0 0 0 0" 1
        256 "RGBA 3 2 1 255" "[4]"] rr rl el
    by simp
qed

section \<open>Decoding an encoded image\<close>

lemma unat_count_byte:
  "1 \<le> m \<Longrightarrow> m \<le> 256 \<Longrightarrow>
   (if unat (count_byte m) = 0 then 256 else unat (count_byte m)) = m"
proof (cases "m = 256")
  case True
  then show ?thesis by (simp add: count_byte_def)
next
  case False
  assume "1 \<le> m" "m \<le> 256"
  then have "m < 256" using False by linarith
  then have "unat (of_nat m :: byte) = m"
    by (simp add: unat_of_nat)
  then show ?thesis using False \<open>1 \<le> m\<close> by (simp add: count_byte_def)
qed

lemma read_run_encoded:
  assumes "1 \<le> m" "m \<le> 256"
  shows "read_run a ((count_byte m # pixel_bytes a c) @ rest) = (Inr (m, wire_color a c), rest)"
proof -
  note u = unat_count_byte [OF assms]
  show ?thesis
  proof (cases a)
    case True
    show ?thesis
    proof (cases "A c = 0")
      case z: True
      then show ?thesis using True u
        by (simp add: read_run_def Read1_def pixel_bytes_def wire_color_def Let_def)
    next
      case False
      then show ?thesis using True u
        by (cases c) (simp add: read_run_def Read1_def ReadFull_def pixel_bytes_def
                        wire_color_def Let_def)
    qed
  next
    case False
    then show ?thesis using u
      by (cases c) (simp add: read_run_def Read1_def ReadFull_def pixel_bytes_def
                      wire_color_def Let_def)
  qed
qed

lemma sint_of_nat_dim:
  assumes "n \<le> 8192"
  shows "sint (of_nat n :: 32 word) = int n"
proof -
  have "signed_take_bit 31 (int n) = int n"
    using assms by (intro signed_take_bit_int_eq_self) simp_all
  then show ?thesis by (simp add: signed_of_nat)
qed

lemma decode_encoded_loop:
  assumes "dinv (img_width im) (img_height im) st"
    and "input st = concat (map snd (encode_loop im a (cursor st)))"
    and "decode_loop (img_width im * img_height im) a st = (r, st')"
  shows "r = None \<and> cursor st' = img_width im * img_height im \<and>
         (\<forall>k. cursor st \<le> k \<and> k < img_width im * img_height im \<longrightarrow>
              Pix (img st') ! k = wire_color a (pixel_at im k))"
  using assms
proof (induction "img_width im * img_height im - cursor st" arbitrary: st rule: less_induct)
  case less
  let ?w = "img_width im" and ?h = "img_height im"
  let ?i = "cursor st"
  have inv: "dinv ?w ?h st" by (rule less.prems(1))
  have ile: "?i \<le> ?w * ?h" using inv by (simp add: dinv_def)
  show ?case
  proof (cases "?i < ?w * ?h")
    case False
    then have eq: "?i = ?w * ?h" using ile by linarith
    have "decode_loop (?w * ?h) a st = (None, st)" using False by (rule decode_loop_done)
    then have "r = None" "st' = st" using less.prems(3) by simp_all
    then show ?thesis using eq by auto
  next
    case True
    let ?c = "pixel_at im ?i"
    let ?m = "run_length im ?c ?i 1"
    note b = run_length_first_bounds [OF True, of ?c]
    have inp: "input st = (count_byte ?m # pixel_bytes a ?c)
                 @ concat (map snd (encode_loop im a (?i + ?m)))"
      using less.prems(2) encode_loop_step [OF True, of a] by simp
    have rr: "read_run a (input st) =
                (Inr (?m, wire_color a ?c), concat (map snd (encode_loop im a (?i + ?m))))"
      unfolding inp by (rule read_run_encoded [OF b(1,2)])
    have mn: "min ?m (?w * ?h - ?i) = ?m" using b(3) by linarith
    let ?st1 = "\<lparr>cursor = ?i + ?m,
        img = paint (img st) ?i ?m (wire_color a ?c),
        input = concat (map snd (encode_loop im a (?i + ?m))),
        writes = writes st @ run_coords (Dx (img st)) ?i ?m\<rparr>"
    have step: "decode_loop (?w * ?h) a st = decode_loop (?w * ?h) a ?st1"
      using decode_loop_run [OF True rr] by (simp only: mn)
    have app: "run_coords ?w 0 ?i @ run_coords ?w ?i ?m = run_coords ?w 0 (?i + ?m)"
      using run_coords_append [of ?w 0 ?i ?m] by simp
    have inv1: "dinv ?w ?h ?st1"
      using inv app b(3) by (simp add: dinv_def)
    have meas: "?w * ?h - cursor ?st1 < ?w * ?h - ?i"
      using b(1) True by simp
    have in1: "input ?st1 = concat (map snd (encode_loop im a (cursor ?st1)))" by simp
    have res1: "decode_loop (?w * ?h) a ?st1 = (r, st')"
      using less.prems(3) step by simp
    have IH: "r = None \<and> cursor st' = ?w * ?h \<and>
         (\<forall>k. cursor ?st1 \<le> k \<and> k < ?w * ?h \<longrightarrow>
              Pix (img st') ! k = wire_color a (pixel_at im k))"
      by (rule less.hyps [OF meas inv1 in1 res1])
    have "Pix (img st') ! k = wire_color a (pixel_at im k)"
      if k: "?i \<le> k" "k < ?w * ?h" for k
    proof (cases "k < ?i + ?m")
      case False
      then have "cursor ?st1 \<le> k" by simp
      then show ?thesis using IH k(2) by blast
    next
      case inrun: True
      have k1: "k < cursor ?st1" using inrun by simp
      have kk: "k < Dx (img st) * Dy (img st)" using k(2) inv by (simp add: dinv_def)
      have le1: "?i + ?m \<le> Dx (img st) * Dy (img st)" using b(3) inv by (simp add: dinv_def)
      have "Pix (img st') ! k = Pix (img ?st1) ! k"
        by (rule decode_loop_keeps_below [OF inv1 res1 k1])
      also have "\<dots> = Pix (paint (img st) ?i ?m (wire_color a ?c)) ! k" by simp
      also have "\<dots> = (if ?i \<le> k \<and> k < ?i + ?m then wire_color a ?c else Pix (img st) ! k)"
        using inv le1 kk by (intro paint_nth) (simp_all add: dinv_def)
      also have "\<dots> = wire_color a ?c" using k(1) inrun by simp
      also have "\<dots> = wire_color a (pixel_at im k)"
        using run_length_first_same [OF True k(1) inrun] by simp
      finally show ?thesis .
    qed
    then show ?thesis using IH by blast
  qed
qed

lemma DataToPng_state_PngToData:
  assumes "1 \<le> img_width im" "img_width im \<le> 8192"
    and "1 \<le> img_height im" "img_height im \<le> 8192"
  shows "\<exists>st'. DataToPng_state (PngToData im) = (None, st') \<and>
           Dx (img st') = img_width im \<and> Dy (img st') = img_height im \<and>
           length (Pix (img st')) = img_width im * img_height im \<and>
           (\<forall>k < img_width im * img_height im.
              Pix (img st') ! k = wire_color (hasAlphaChannel im) (pixel_at im k))"
proof -
  let ?w = "img_width im" and ?h = "img_height im" and ?a = "hasAlphaChannel im"
  let ?rd = "PngToData im"
  have len: "12 \<le> length ?rd" by (rule PngToData_header(5))
  have sw: "sint (header_width ?rd) = int ?w"
    using assms(2) by (simp add: PngToData_header sint_of_nat_dim)
  have sh: "sint (header_height ?rd) = int ?h"
    using assms(4) by (simp add: PngToData_header sint_of_nat_dim)
  have fl: "(header_alphaFlag ?rd \<noteq> 0) = ?a" by (simp add: PngToData_header)
  have ok: "0 < sint (header_width ?rd)" "sint (header_width ?rd) \<le> 8192"
      "0 < sint (header_height ?rd)" "sint (header_height ?rd) \<le> 8192"
    using assms by (simp_all add: sw sh)
  have np: "nat (sint (header_width ?rd * header_height ?rd)) = ?w * ?h"
    using sint_mult_dims [OF ok] by (simp add: sw sh)
  let ?st0 = "\<lparr>cursor = 0, img = init_canvas ?a (NewRGBA ?w ?h),
               input = drop 12 ?rd, writes = []\<rparr>"
  have eq: "DataToPng_state ?rd = decode_loop (?w * ?h) ?a ?st0"
    using DataToPng_state_header [OF len] ok by (simp add: np fl sw sh)
  obtain r st' where res: "decode_loop (?w * ?h) ?a ?st0 = (r, st')"
    by (cases "decode_loop (?w * ?h) ?a ?st0")
  have inv0: "dinv ?w ?h ?st0" by (rule dinv_init)
  have in0: "input ?st0 = concat (map snd (encode_loop im ?a (cursor ?st0)))"
    by (simp add: PngToData_header)
  have main: "r = None \<and> cursor st' = ?w * ?h \<and>
         (\<forall>k. cursor ?st0 \<le> k \<and> k < ?w * ?h \<longrightarrow>
              Pix (img st') ! k = wire_color ?a (pixel_at im k))"
    by (rule decode_encoded_loop [OF inv0 in0 res])
  have "dinv ?w ?h st'" using decode_loop_inv [OF inv0 res] by blast
  then have d: "Dx (img st') = ?w" "Dy (img st') = ?h" "length (Pix (img st')) = ?w * ?h"
    by (simp_all add: dinv_def)
  have "DataToPng_state ?rd = (None, st')" using eq res main by simp
  moreover have "\<forall>k < ?w * ?h. Pix (img st') ! k = wire_color ?a (pixel_at im k)"
    using main by simp
  ultimately show ?thesis using d by blast
qed

lemma word16_not_less_max:
  fixes a :: "16 word"
  assumes "\<not> a < 0xffff"
  shows "a = 0xffff"
proof -
  have "unat a < 2 ^ 16" using unsigned_less [of a, where ?'a = nat] by simp
  moreover have "\<not> unat a < 65535" using assms by (simp add: word_less_nat_alt)
  ultimately have "unat a = unat (0xffff :: 16 word)" by simp
  then show ?thesis by (simp only: word_unat_eq_iff)
qed

lemma A_pixel_at:
  "A (pixel_at im k) =
     ucast (drop_bit 8 (alpha16 (At im (k mod img_width im) (k div img_width im))))"
  by (cases "At im (k mod img_width im) (k div img_width im)")
     (simp add: pixel_at_def getRGBA_def)

lemma opaque_without_alpha:
  assumes "kind im = image_RGBA \<or> kind im = image_NRGBA" "\<not> hasAlphaChannel im"
    and "k < img_width im * img_height im"
  shows "A (pixel_at im k) = 255"
proof -
  let ?x = "k mod img_width im" and ?y = "k div img_width im"
  have w: "0 < img_width im" using assms(3) by (cases "img_width im") simp_all
  have x: "?x < img_width im" using w by simp
  have y: "?y < img_height im" using assms(3) by (rule div_less_of_lt_mult)
  have "\<not> alpha16 (At im ?x ?y) < 0xffff"
    using assms(1,2) x y unfolding hasAlphaChannel_iff by blast
  then have "alpha16 (At im ?x ?y) = 0xffff" by (rule word16_not_less_max)
  then show ?thesis by (simp add: A_pixel_at)
qed

text \<open>
  The DATA stream itself loses nothing but the colour of transparent pixels, for an image
  of one of the two types of the type switch, or with opaque pixels only: the canvas
  \<^verbatim>\<open>DataToPng\<close> hands to \<^verbatim>\<open>png.Encode\<close> holds the pixels the encoder has read with
  \<^verbatim>\<open>getRGBA\<close>, and \<open>RGBA 0 0 0 0\<close> where the alpha is 0. This is a statement about the canvas,
  not about the PNG written from it.
\<close>

lemma canvas_of_encoded_image:
  assumes "1 \<le> img_width im" "img_width im \<le> 8192"
    and "1 \<le> img_height im" "img_height im \<le> 8192"
    and "kind im = image_RGBA \<or> kind im = image_NRGBA \<or>
         (\<forall>k < img_width im * img_height im. A (pixel_at im k) = 255)"
  shows "\<exists>st'. DataToPng_state (PngToData im) = (None, st') \<and>
           Dx (img st') = img_width im \<and> Dy (img st') = img_height im \<and>
           length (Pix (img st')) = img_width im * img_height im \<and>
           (\<forall>k < img_width im * img_height im.
              Pix (img st') ! k =
                (if A (pixel_at im k) = 0 then RGBA 0 0 0 0 else pixel_at im k))"
proof -
  let ?n = "img_width im * img_height im" and ?a = "hasAlphaChannel im"
  obtain st' where st': "DataToPng_state (PngToData im) = (None, st')"
      "Dx (img st') = img_width im" "Dy (img st') = img_height im"
      "length (Pix (img st')) = ?n"
      "\<forall>k < ?n. Pix (img st') ! k = wire_color ?a (pixel_at im k)"
    using DataToPng_state_PngToData [OF assms(1-4)] by blast
  have wire: "wire_color ?a (pixel_at im k) =
              (if A (pixel_at im k) = 0 then RGBA 0 0 0 0 else pixel_at im k)"
    if k: "k < ?n" for k
  proof (cases ?a)
    case True
    then show ?thesis by (simp add: wire_color_def)
  next
    case False
    have op: "A (pixel_at im k) = 255"
    proof (cases "kind im = image_RGBA \<or> kind im = image_NRGBA")
      case True
      then show ?thesis using False k by (rule opaque_without_alpha)
    next
      case other: False
      then show ?thesis using assms(5) k by blast
    qed
    have "RGBA (R (pixel_at im k)) (G (pixel_at im k)) (B (pixel_at im k)) 255 = pixel_at im k"
      using op by (cases "pixel_at im k") simp
    then show ?thesis using False op by (simp add: wire_color_def)
  qed
  have px: "\<forall>k < ?n. Pix (img st') ! k =
              (if A (pixel_at im k) = 0 then RGBA 0 0 0 0 else pixel_at im k)"
    using st'(5) wire by simp
  show ?thesis
    using st'(1,2,3,4) px by blast
qed

text \<open>
  The PNG written for the stream of an image has the size of the image. So the first half
  of the round trip holds on the code, for every image that \<^verbatim>\<open>DataToPng\<close> accepts.
\<close>

lemma DataToPng_PngToData_size:
  assumes "1 \<le> img_width im" "img_width im \<le> 8192"
    and "1 \<le> img_height im" "img_height im \<le> 8192"
  shows "\<exists>p. DataToPng (PngToData im) = Inr p \<and>
           png_width p = img_width im \<and> png_height p = img_height im"
proof -
  obtain st' where st': "DataToPng_state (PngToData im) = (None, st')"
      "Dx (img st') = img_width im" "Dy (img st') = img_height im"
    using DataToPng_state_PngToData [OF assms] by blast
  have small: "img_width im < 2 ^ 32" "img_height im < 2 ^ 32"
    using assms(2,4) by simp_all
  have "DataToPng (PngToData im) = png_Encode (img st')"
    using st'(1) by (simp add: DataToPng_def)
  then show ?thesis
    using st'(2,3) assms(1,3) small by (auto simp: png_Encode_def)
qed

text \<open>
  Where the tolerance comes from: the pixels of a PNG with alpha are not premultiplied,
  those of the canvas are, and both conversions truncate. The pixel \<open>(200, 100, 50, 128)\<close>
  of a PNG is \<open>RGBA 100 50 25 128\<close> for the encoder and on the canvas of the decoder; it
  is written into the new PNG as \<open>(199, 99, 49, 128)\<close>, which reads as
  \<open>RGBA 100 49 24 128\<close>.
\<close>

lemma decode_encode_rounding:
  "pixel_at translucent8 0 = RGBA 100 50 25 128 \<and>
   img (snd (DataToPng_state (PngToData translucent8))) =
     \<lparr>Dx = 1, Dy = 1, Pix = [RGBA 100 50 25 128]\<rparr> \<and>
   DataToPng (PngToData translucent8) =
     Inr \<lparr>png_width = 1, png_height = 1, png_data = cbTCA8 [(199, 99, 49, 128)]\<rparr> \<and>
   pixel_at (png_Decode \<lparr>png_width = 1, png_height = 1,
                         png_data = cbTCA8 [(199, 99, 49, 128)]\<rparr>) 0 = RGBA 100 49 24 128"
  by code_simp

text \<open>
  Claim C3 fails on the code, beyond any small tolerance. The one pixel of
  \<open>transparent64\<close> (an \<^verbatim>\<open>*image.NRGBA64\<close>, what \<^verbatim>\<open>png.Decode\<close> returns for a PNG of 16-bit
  truecolour with alpha) is fully transparent. Its type is not among those of the type
  switch of \<^verbatim>\<open>hasAlphaChannel\<close>, so \<^verbatim>\<open>PngToData\<close> writes the stream in non-alpha mode,
  without the alpha byte. \<^verbatim>\<open>DataToPng\<close> on that stream paints an opaque black pixel and
  writes an opaque PNG: the alpha of the pixel has gone from 0 to 255.
\<close>

theorem decode_encode_loses_alpha:
  "kind transparent64 = image_NRGBA64 \<and>
   pixel_at transparent64 0 = RGBA 0 0 0 0 \<and>
   PngToData transparent64 = [1, 0, 0, 0, 1, 0, 0, 0, 0, 0, 0, 0, 1, 0, 0, 0] \<and>
   img (snd (DataToPng_state (PngToData transparent64))) =
     \<lparr>Dx = 1, Dy = 1, Pix = [RGBA 0 0 0 255]\<rparr> \<and>
   DataToPng (PngToData transparent64) =
     Inr \<lparr>png_width = 1, png_height = 1, png_data = cbTC8 [(0, 0, 0)]\<rparr> \<and>
   pixel_at (png_Decode \<lparr>png_width = 1, png_height = 1, png_data = cbTC8 [(0, 0, 0)]\<rparr>) 0 =
     RGBA 0 0 0 255"
  by code_simp

section \<open>Properties of the batch pipeline\<close>

text \<open>On a machine with at least one CPU there is at least one worker.\<close>

lemma maxWorkers_positive:
  "0 < numCPU \<Longrightarrow> 0 < NewFilesConverter numCPU \<and>
     0 < SetMaxWorkers (NewFilesConverter numCPU) k"
  by (simp add: NewFilesConverter_def SetMaxWorkers_def)

subsection \<open>The invariant of the pool\<close>

lemma held_Cons: "held (a # ws) = held [a] @ held ws"
  by (simp add: held_def)

lemma held_update:
  "w < length ws \<Longrightarrow>
   set (held (ws[w := x])) \<union> set (held [ws ! w]) = set (held ws) \<union> set (held [x])"
proof (induction ws arbitrary: w)
  case Nil
  then show ?case by simp
next
  case (Cons a ws)
  show ?case
  proof (cases w)
    case 0
    have "set (held (x # ws)) \<union> set (held [a]) = set (held (a # ws)) \<union> set (held [x])"
      by (subst (1 2) held_Cons) auto
    then show ?thesis using 0 by simp
  next
    case (Suc v)
    then have "v < length ws" using Cons.prems by simp
    from Cons.IH [OF this]
    have IH: "set (held (ws[v := x])) \<union> set (held [ws ! v]) = set (held ws) \<union> set (held [x])" .
    have "set (held (a # ws[v := x])) \<union> set (held [ws ! v]) =
          set (held [a]) \<union> (set (held (ws[v := x])) \<union> set (held [ws ! v]))"
      by (subst held_Cons) auto
    also have "\<dots> = set (held [a]) \<union> (set (held ws) \<union> set (held [x]))"
      by (simp only: IH)
    also have "\<dots> = set (held (a # ws)) \<union> set (held [x])"
      by (subst (2) held_Cons) auto
    finally show ?thesis using Suc by simp
  qed
qed

lemma held_update_length:
  "w < length ws \<Longrightarrow>
   length (held (ws[w := x])) + length (held [ws ! w]) = length (held ws) + length (held [x])"
proof (induction ws arbitrary: w)
  case Nil
  then show ?case by simp
next
  case (Cons a ws)
  show ?case
  proof (cases w)
    case 0
    have "length (held (x # ws)) + length (held [a]) = length (held (a # ws)) + length (held [x])"
      by (subst (1 2) held_Cons) simp
    then show ?thesis using 0 by simp
  next
    case (Suc v)
    then have "v < length ws" using Cons.prems by simp
    from Cons.IH [OF this]
    have IH: "length (held (ws[v := x])) + length (held [ws ! v]) =
              length (held ws) + length (held [x])" .
    have "length (held (a # ws[v := x])) + length (held [ws ! v]) =
          length (held [a]) + (length (held (ws[v := x])) + length (held [ws ! v]))"
      by (subst held_Cons) simp
    also have "\<dots> = length (held [a]) + (length (held ws) + length (held [x]))"
      by (simp only: IH)
    also have "\<dots> = length (held (a # ws)) + length (held [x])"
      by (subst (2) held_Cons) simp
    finally show ?thesis using Suc by simp
  qed
qed

lemma held_Ranging [simp]: "held [Ranging] = []" and held_Finished [simp]: "held [Finished] = []"
  and held_Running [simp]: "held [Running t] = [t]"
  by (simp_all add: held_def)

lemma captured_append [simp]: "captured (xs @ ys) = captured xs @ captured ys"
  by (simp add: captured_def)

lemma captured_single [simp]:
  "captured [(t, Captured err)] = [err]" "captured [(t, Completed)] = []"
  "captured [(t, Returned)] = []"
  by (simp_all add: captured_def)

lemma set_update_Finished:
  "w < length ws \<Longrightarrow> Finished \<in> set (ws[w := x]) \<Longrightarrow> x \<noteq> Finished \<Longrightarrow> Finished \<in> set ws"
  by (metis in_set_conv_nth length_list_update nth_list_update_eq nth_list_update_neq)

lemma pinv_step:
  assumes inv: "pinv e tasks n st"
    and noret: "\<forall>t \<in> set tasks. run_task e t \<noteq> Returned"
  shows "pinv e tasks n (pool_step e w st)"
proof (cases "w < length (workers st)")
  case False
  then show ?thesis using inv by (simp add: pool_step_def)
next
  case True
  note h = held_update [OF True]
  note hl = held_update_length [OF True]
  from inv have m: "set (taskQueue st) \<union> set (held (workers st)) \<union> fst ` set (processed st)
              = set tasks"
    and l: "length (taskQueue st) + length (held (workers st)) + length (processed st)
              = length tasks"
    and ec: "errChan st = captured (processed st)"
    and pr: "\<forall>p \<in> set (processed st). snd p = run_task e (fst p)"
    and fq: "Finished \<in> set (workers st) \<longrightarrow> taskQueue st = []"
    and ln: "length (workers st) = n"
    by (simp_all add: pinv_def)
  show ?thesis
  proof (cases "workers st ! w")
    case Ranging
    show ?thesis
    proof (cases "taskQueue st")
      case Nil
      have "set (held ((workers st)[w := Finished])) = set (held (workers st))"
        using h [of Finished] Ranging by simp
      moreover have "length (held ((workers st)[w := Finished])) = length (held (workers st))"
        using hl [of Finished] Ranging by simp
      ultimately show ?thesis
        using True Ranging Nil m l ec pr ln by (simp add: pool_step_def pinv_def)
    next
      case (Cons task rest)
      have nf: "Finished \<notin> set (workers st)" using fq Cons by auto
      have hs: "set (held ((workers st)[w := Running task])) = insert task (set (held (workers st)))"
        using h [of "Running task"] Ranging by simp
      have hn: "length (held ((workers st)[w := Running task])) = Suc (length (held (workers st)))"
        using hl [of "Running task"] Ranging by simp
      have nf': "Finished \<notin> set ((workers st)[w := Running task])"
        using set_update_Finished [OF True, of "Running task"] nf by blast
      have m': "set rest \<union> set (held ((workers st)[w := Running task]))
                  \<union> fst ` set (processed st) = set tasks"
        using m Cons unfolding hs by auto
      have l': "length rest + length (held ((workers st)[w := Running task]))
                  + length (processed st) = length tasks"
        using l Cons unfolding hn by simp
      show ?thesis
        using True Ranging Cons m' l' ec pr ln nf' by (simp add: pool_step_def pinv_def)
    qed
  next
    case (Running task)
    have hr: "insert task (set (held ((workers st)[w := Ranging]))) = set (held (workers st))"
      using h [of Ranging] Running by simp
    have hn: "Suc (length (held ((workers st)[w := Ranging]))) = length (held (workers st))"
      using hl [of Ranging] Running by simp
    have tin: "task \<in> set (held (workers st))"
      unfolding hr [symmetric] by simp
    then have "task \<in> set tasks" unfolding m [symmetric] by simp
    then have nr: "run_task e task \<noteq> Returned" using noret by simp
    have nfin: "Finished \<in> set ((workers st)[w := Ranging]) \<longrightarrow> taskQueue st = []"
      using set_update_Finished [OF True, of Ranging] fq by blast
    have m': "set (taskQueue st) \<union> set (held ((workers st)[w := Ranging]))
                \<union> fst ` set (processed st @ [(task, r)]) = set tasks" for r
    proof -
      have "set (taskQueue st) \<union> set (held ((workers st)[w := Ranging]))
                \<union> fst ` set (processed st @ [(task, r)])
            = set (taskQueue st) \<union> insert task (set (held ((workers st)[w := Ranging])))
                \<union> fst ` set (processed st)"
        by auto
      also have "\<dots> = set tasks" unfolding hr by (rule m)
      finally show ?thesis .
    qed
    have l': "length (taskQueue st) + length (held ((workers st)[w := Ranging]))
                + length (processed st @ [(task, r)]) = length tasks" for r
      using l hn by simp
    show ?thesis
    proof (cases "run_task e task")
      case (Captured err)
      then show ?thesis
        using True Running m' [of "Captured err"] l' [of "Captured err"] ec pr ln nfin
        by (simp add: pool_step_def pinv_def)
    next
      case Completed
      then show ?thesis
        using True Running m' [of Completed] l' [of Completed] ec pr ln nfin
        by (simp add: pool_step_def pinv_def)
    next
      case Returned
      then show ?thesis using nr by simp
    qed
  next
    case Finished
    then show ?thesis using True inv by (simp add: pool_step_def)
  qed
qed

lemma pinv_init:
  "pinv e tasks n \<lparr>taskQueue = tasks, errChan = [], workers = replicate n Ranging,
        processed = []\<rparr>"
proof -
  have "held (replicate n Ranging) = []" by (induction n) (simp_all add: held_def)
  then show ?thesis by (simp add: pinv_def captured_def)
qed

lemma pinv_fold:
  assumes "\<forall>t \<in> set tasks. run_task e t \<noteq> Returned"
  shows "pinv e tasks n st \<Longrightarrow> pinv e tasks n (fold (pool_step e) sched st)"
proof (induction sched arbitrary: st)
  case Nil
  then show ?case by simp
next
  case (Cons w sched)
  have "pinv e tasks n (pool_step e w st)" using Cons.prems assms by (rule pinv_step)
  then show ?case using Cons.IH by simp
qed

lemma pinv_run:
  assumes "\<forall>t \<in> set tasks. run_task e t \<noteq> Returned"
  shows "pinv e tasks n (pool_run e n tasks sched)"
  unfolding pool_run_def using assms pinv_init by (rule pinv_fold)

lemma pinv_final:
  assumes inv: "pinv e tasks n st" and n: "0 < n"
    and fin: "list_all (\<lambda>wk. wk = Finished) (workers st)"
  shows "set (processed st) = (\<lambda>t. (t, run_task e t)) ` set tasks"
    and "length (processed st) = length tasks"
proof -
  have "length (workers st) = n" using inv by (simp add: pinv_def)
  moreover have "\<forall>wk \<in> set (workers st). wk = Finished" using fin by (simp add: list_all_iff)
  ultimately have ws: "workers st = replicate n Finished"
    by (metis replicate_length_same)
  have "held (replicate n Finished) = []" by (induction n) (simp_all add: held_def)
  then have h: "held (workers st) = []" using ws by simp
  have "Finished \<in> set (workers st)" using ws n by simp
  then have q: "taskQueue st = []" using inv by (simp add: pinv_def)
  have m: "fst ` set (processed st) = set tasks"
    using inv h q by (simp add: pinv_def)
  show "length (processed st) = length tasks"
    using inv h q by (simp add: pinv_def)
  have pr: "\<forall>p \<in> set (processed st). snd p = run_task e (fst p)"
    using inv by (simp add: pinv_def)
  show "set (processed st) = (\<lambda>t. (t, run_task e t)) ` set tasks"
  proof (intro equalityI subsetI)
    fix p assume p: "p \<in> set (processed st)"
    then have "fst p \<in> set tasks" unfolding m [symmetric] by (rule imageI)
    moreover have "snd p = run_task e (fst p)" using pr p by blast
    then have "p = (fst p, run_task e (fst p))" by (simp add: prod_eq_iff)
    ultimately show "p \<in> (\<lambda>t. (t, run_task e t)) ` set tasks" by (rule image_eqI [rotated])
  next
    fix p assume "p \<in> (\<lambda>t. (t, run_task e t)) ` set tasks"
    then obtain t where t: "t \<in> set tasks" "p = (t, run_task e t)" by blast
    then have "t \<in> fst ` set (processed st)" unfolding m by simp
    then obtain q where q: "q \<in> set (processed st)" "fst q = t" by auto
    have "snd q = run_task e (fst q)" using pr q(1) by blast
    then have "q = (t, run_task e t)" using q(2) by (simp add: prod_eq_iff)
    then show "p \<in> set (processed st)" using q(1) t(2) by simp
  qed
qed

lemma set_captured:
  "err \<in> set (captured rs) \<longleftrightarrow> (\<exists>t. (t, Captured err) \<in> set rs)"
  by (induction rs) (auto simp: captured_def split: task_result.splits)

lemma convert_Some:
  assumes "convert e n toDir (Inr files) sched = Some res" "files \<noteq> []" "MkdirAll e toDir"
  shows "list_all (\<lambda>wk. wk = Finished) (workers (pool_run e n (make_tasks e files) sched))"
    and "res = (case errChan (pool_run e n (make_tasks e files) sched) of
                  [] \<Rightarrow> None | err # rest \<Rightarrow> Some err)"
proof -
  let ?st = "pool_run e n (make_tasks e files) sched"
  have eq: "convert e n toDir (Inr files) sched =
     (if list_all (\<lambda>wk. wk = Finished) (workers ?st) then
        (case errChan ?st of [] \<Rightarrow> Some None | err # rest \<Rightarrow> Some (Some err))
      else None)"
    using assms(2,3) by (simp add: convert_def Let_def)
  show fin: "list_all (\<lambda>wk. wk = Finished) (workers ?st)"
  proof (rule ccontr)
    assume "\<not> list_all (\<lambda>wk. wk = Finished) (workers ?st)"
    then have "convert e n toDir (Inr files) sched = None" unfolding eq by simp
    then show False using assms(1) by simp
  qed
  show "res = (case errChan ?st of [] \<Rightarrow> None | err # rest \<Rightarrow> Some err)"
  proof (cases "errChan ?st")
    case Nil
    then have "convert e n toDir (Inr files) sched = Some None" unfolding eq using fin by simp
    then show ?thesis using assms(1) Nil by simp
  next
    case (Cons err rest)
    then have "convert e n toDir (Inr files) sched = Some (Some err)"
      unfolding eq using fin by simp
    then show ?thesis using assms(1) Cons by simp
  qed
qed

lemma errChan_mem:
  assumes sets: "set (processed st) = (\<lambda>t. (t, run_task e t)) ` set tasks"
    and ec: "errChan st = captured (processed st)"
  shows "err \<in> set (errChan st) \<longleftrightarrow> (\<exists>t \<in> set tasks. run_task e t = Captured err)"
proof
  assume "err \<in> set (errChan st)"
  then obtain t where "(t, Captured err) \<in> set (processed st)"
    unfolding ec set_captured by blast
  then have "t \<in> set tasks" "run_task e t = Captured err"
    unfolding sets by auto
  then show "\<exists>t \<in> set tasks. run_task e t = Captured err" by blast
next
  assume "\<exists>t \<in> set tasks. run_task e t = Captured err"
  then obtain t where t: "t \<in> set tasks" "run_task e t = Captured err" by blast
  then have "(t, Captured err) \<in> set (processed st)"
    unfolding sets by (metis image_eqI)
  then show "err \<in> set (errChan st)" unfolding ec set_captured by blast
qed

subsection \<open>Some interleaving lets every worker finish\<close>

lemma filter_update_length:
  "w < length ws \<Longrightarrow>
   length (filter P (ws[w := x])) + (if P (ws ! w) then 1 else 0) =
   length (filter P ws) + (if P x then 1 else 0)"
proof (induction ws arbitrary: w)
  case Nil
  then show ?case by simp
next
  case (Cons a ws)
  show ?case
  proof (cases w)
    case 0
    then show ?thesis by simp
  next
    case (Suc v)
    then have "v < length ws" using Cons.prems by simp
    from Cons.IH [OF this] show ?thesis using Suc by simp
  qed
qed

lemma pool_step_measure:
  assumes "w < length (workers st)" "workers st ! w \<noteq> Finished"
  shows "pool_measure (pool_step e w st) < pool_measure st"
proof -
  note hl = held_update_length [OF assms(1)]
  note fl = filter_update_length [OF assms(1), of "\<lambda>wk. wk \<noteq> Finished"]
  show ?thesis
  proof (cases "workers st ! w")
    case Ranging
    show ?thesis
    proof (cases "taskQueue st")
      case Nil
      then show ?thesis
        using assms(1) Ranging hl [of Finished] fl [of Finished]
        by (simp add: pool_step_def pool_measure_def)
    next
      case (Cons task rest)
      then show ?thesis
        using assms(1) Ranging hl [of "Running task"] fl [of "Running task"]
        by (simp add: pool_step_def pool_measure_def)
    qed
  next
    case (Running task)
    show ?thesis
    proof (cases "run_task e task")
      case (Captured err)
      then show ?thesis
        using assms(1) Running hl [of Ranging] fl [of Ranging]
        by (simp add: pool_step_def pool_measure_def)
    next
      case Completed
      then show ?thesis
        using assms(1) Running hl [of Ranging] fl [of Ranging]
        by (simp add: pool_step_def pool_measure_def)
    next
      case Returned
      then show ?thesis
        using assms(1) Running hl [of Finished] fl [of Finished]
        by (simp add: pool_step_def pool_measure_def)
    qed
  next
    case Finished
    then show ?thesis using assms(2) by simp
  qed
qed

lemma pool_can_finish:
  "\<exists>sched. list_all (\<lambda>wk. wk = Finished) (workers (fold (pool_step e) sched st))"
proof (induction "pool_measure st" arbitrary: st rule: less_induct)
  case less
  show ?case
  proof (cases "list_all (\<lambda>wk. wk = Finished) (workers st)")
    case True
    then have "list_all (\<lambda>wk. wk = Finished) (workers (fold (pool_step e) [] st))" by simp
    then show ?thesis by blast
  next
    case False
    then obtain w where w: "w < length (workers st)" "workers st ! w \<noteq> Finished"
      by (auto simp: list_all_length)
    have "pool_measure (pool_step e w st) < pool_measure st" using w by (rule pool_step_measure)
    from less.hyps [OF this]
    obtain sched where
      "list_all (\<lambda>wk. wk = Finished) (workers (fold (pool_step e) sched (pool_step e w st)))"
      by blast
    then have "list_all (\<lambda>wk. wk = Finished) (workers (fold (pool_step e) (w # sched) st))"
      by simp
    then show ?thesis by blast
  qed
qed

lemma convert_can_return: "\<exists>sched. convert e n toDir walk sched \<noteq> None"
proof (cases walk)
  case (Inl err)
  then show ?thesis by (simp add: convert_def)
next
  case (Inr files)
  obtain sched where
    s: "list_all (\<lambda>wk. wk = Finished) (workers (pool_run e n (make_tasks e files) sched))"
    unfolding pool_run_def using pool_can_finish by blast
  have "convert e n toDir (Inr files) sched \<noteq> None"
    using s by (simp add: convert_def Let_def split: list.splits)
  then show ?thesis using Inr by blast
qed

subsection \<open>The error returned\<close>

lemma convert_without_close_failure:
  assumes ret: "convert e n toDir (Inr files) sched = Some res"
    and files: "files \<noteq> []" and root: "MkdirAll e toDir" and n: "0 < n"
    and noret: "\<forall>t \<in> set (make_tasks e files). run_task e t \<noteq> Returned"
  shows "set (processed (pool_run e n (make_tasks e files) sched)) =
           (\<lambda>t. (t, run_task e t)) ` set (make_tasks e files) \<and>
         length (processed (pool_run e n (make_tasks e files) sched)) = length files \<and>
         errChan (pool_run e n (make_tasks e files) sched) =
           captured (processed (pool_run e n (make_tasks e files) sched)) \<and>
         res = (case errChan (pool_run e n (make_tasks e files) sched) of
                  [] \<Rightarrow> None | err # rest \<Rightarrow> Some err) \<and>
         (res = None \<longleftrightarrow> (\<forall>t \<in> set (make_tasks e files). run_task e t = Completed)) \<and>
         (\<forall>t0 err0. t0 \<in> set (make_tasks e files) \<and> run_task e t0 = Captured err0 \<and>
              (\<forall>t \<in> set (make_tasks e files). t \<noteq> t0 \<longrightarrow> run_task e t = Completed) \<longrightarrow>
            res = Some err0 \<and>
            (\<forall>t \<in> set (make_tasks e files). t \<noteq> t0 \<longrightarrow>
               (t, Completed) \<in> set (processed (pool_run e n (make_tasks e files) sched))))"
proof -
  let ?tasks = "make_tasks e files"
  let ?st = "pool_run e n ?tasks sched"
  have fin: "list_all (\<lambda>wk. wk = Finished) (workers ?st)"
    by (rule convert_Some(1) [OF ret files root])
  have res: "res = (case errChan ?st of [] \<Rightarrow> None | err # rest \<Rightarrow> Some err)"
    by (rule convert_Some(2) [OF ret files root])
  have inv: "pinv e ?tasks n ?st" using noret by (rule pinv_run)
  have sets: "set (processed ?st) = (\<lambda>t. (t, run_task e t)) ` set ?tasks"
    using inv n fin by (rule pinv_final(1))
  have "length (processed ?st) = length ?tasks"
    using inv n fin by (rule pinv_final(2))
  then have len: "length (processed ?st) = length files"
    by (simp add: make_tasks_def)
  have ec: "errChan ?st = captured (processed ?st)" using inv by (simp add: pinv_def)
  note mem = errChan_mem [OF sets ec]
  have none: "res = None \<longleftrightarrow> (\<forall>t \<in> set ?tasks. run_task e t = Completed)"
  proof
    assume "res = None"
    then have emp: "errChan ?st = []" using res by (cases "errChan ?st") simp_all
    show "\<forall>t \<in> set ?tasks. run_task e t = Completed"
    proof
      fix t assume t: "t \<in> set ?tasks"
      have nr: "run_task e t \<noteq> Returned" using noret t by blast
      show "run_task e t = Completed"
      proof (cases "run_task e t")
        case (Captured err)
        then have "err \<in> set (errChan ?st)" unfolding mem using t by blast
        then show ?thesis unfolding emp by simp
      next
        case Completed
        then show ?thesis .
      next
        case Returned
        then show ?thesis using nr by blast
      qed
    qed
  next
    assume all: "\<forall>t \<in> set ?tasks. run_task e t = Completed"
    have "errChan ?st = []"
    proof (cases "errChan ?st")
      case Nil
      then show ?thesis .
    next
      case (Cons err rest)
      then have "err \<in> set (errChan ?st)" by simp
      then obtain t where "t \<in> set ?tasks" "run_task e t = Captured err"
        unfolding mem by blast
      then show ?thesis using all by (metis task_result.distinct(1))
    qed
    then show "res = None" unfolding res by simp
  qed
  have one: "res = Some err0 \<and> (\<forall>t \<in> set ?tasks. t \<noteq> t0 \<longrightarrow> (t, Completed) \<in> set (processed ?st))"
    if h: "t0 \<in> set ?tasks \<and> run_task e t0 = Captured err0 \<and>
           (\<forall>t \<in> set ?tasks. t \<noteq> t0 \<longrightarrow> run_task e t = Completed)" for t0 err0
  proof
    have h1: "t0 \<in> set ?tasks" and h2: "run_task e t0 = Captured err0"
      and h3: "\<forall>t \<in> set ?tasks. t \<noteq> t0 \<longrightarrow> run_task e t = Completed"
      using h by blast+
    have only: "err = err0" if inchan: "err \<in> set (errChan ?st)" for err
    proof -
      have "\<exists>t \<in> set ?tasks. run_task e t = Captured err"
        using inchan unfolding mem .
      then obtain t where t: "t \<in> set ?tasks" "run_task e t = Captured err"
        by blast
      have "t = t0"
      proof (rule ccontr)
        assume "t \<noteq> t0"
        then have "run_task e t = Completed" using h3 t(1) by blast
        then show False using t(2) by simp
      qed
      then have "Captured err = Captured err0" using t(2) h2 by simp
      then show ?thesis by simp
    qed
    have "err0 \<in> set (errChan ?st)" unfolding mem using h1 h2 by blast
    then obtain err rest where er: "errChan ?st = err # rest" by (cases "errChan ?st") auto
    then have "err \<in> set (errChan ?st)" by simp
    then have "err = err0" by (rule only)
    then show "res = Some err0" unfolding res er by simp
    show "\<forall>t \<in> set ?tasks. t \<noteq> t0 \<longrightarrow> (t, Completed) \<in> set (processed ?st)"
    proof (intro ballI impI)
      fix t assume t: "t \<in> set ?tasks" "t \<noteq> t0"
      then have c: "run_task e t = Completed" using h3 by blast
      have "(t, run_task e t) \<in> set (processed ?st)" unfolding sets using t(1) by (rule imageI)
      then show "(t, Completed) \<in> set (processed ?st)" unfolding c .
    qed
  qed
  have last: "\<forall>t0 err0. t0 \<in> set ?tasks \<and> run_task e t0 = Captured err0 \<and>
              (\<forall>t \<in> set ?tasks. t \<noteq> t0 \<longrightarrow> run_task e t = Completed) \<longrightarrow>
            res = Some err0 \<and>
            (\<forall>t \<in> set ?tasks. t \<noteq> t0 \<longrightarrow> (t, Completed) \<in> set (processed ?st))"
    by (intro allI impI) (rule one)
  show ?thesis by (intro conjI) (rule sets, rule len, rule ec, rule res, rule none, rule last)
qed

lemma pool_log_step:
  assumes "errChan st = captured (processed st)"
    and "\<forall>p \<in> set (processed st). snd p = run_task e (fst p)"
  shows "errChan (pool_step e w st) = captured (processed (pool_step e w st)) \<and>
         (\<forall>p \<in> set (processed (pool_step e w st)). snd p = run_task e (fst p))"
proof (cases "w < length (workers st)")
  case False
  then show ?thesis using assms by (simp add: pool_step_def)
next
  case True
  show ?thesis
  proof (cases "workers st ! w")
    case Ranging
    then show ?thesis using True assms by (cases "taskQueue st") (simp_all add: pool_step_def)
  next
    case (Running task)
    then show ?thesis using True assms by (cases "run_task e task") (simp_all add: pool_step_def)
  next
    case Finished
    then show ?thesis using True assms by (simp add: pool_step_def)
  qed
qed

lemma pool_log_fold:
  "errChan st = captured (processed st) \<Longrightarrow>
   \<forall>p \<in> set (processed st). snd p = run_task e (fst p) \<Longrightarrow>
   errChan (fold (pool_step e) sched st) = captured (processed (fold (pool_step e) sched st)) \<and>
   (\<forall>p \<in> set (processed (fold (pool_step e) sched st)). snd p = run_task e (fst p))"
proof (induction sched arbitrary: st)
  case Nil
  then show ?case by simp
next
  case (Cons w sched)
  have s: "errChan (pool_step e w st) = captured (processed (pool_step e w st)) \<and>
         (\<forall>p \<in> set (processed (pool_step e w st)). snd p = run_task e (fst p))"
    using Cons.prems by (rule pool_log_step)
  have "errChan (fold (pool_step e) sched (pool_step e w st)) =
          captured (processed (fold (pool_step e) sched (pool_step e w st))) \<and>
        (\<forall>p \<in> set (processed (fold (pool_step e) sched (pool_step e w st))).
            snd p = run_task e (fst p))"
    using s by (intro Cons.IH) blast+
  then show ?case by simp
qed

lemma pool_log_run:
  "errChan (pool_run e n tasks sched) = captured (processed (pool_run e n tasks sched)) \<and>
   (\<forall>p \<in> set (processed (pool_run e n tasks sched)). snd p = run_task e (fst p))"
  unfolding pool_run_def by (rule pool_log_fold) (simp_all add: captured_def)

subsection \<open>The steps of a task\<close>

lemma run_task_Captured_iff: "run_task e t = Captured err \<longleftrightarrow> step_error e t err"
  by (auto simp: run_task_def step_error_def)

lemma run_task_Completed_iff: "run_task e t = Completed \<longleftrightarrow> steps_ok e t \<and> closes_ok e t"
  by (auto simp: run_task_def steps_ok_def closes_ok_def)

lemma run_task_Returned_iff: "run_task e t = Returned \<longleftrightarrow> steps_ok e t \<and> \<not> closes_ok e t"
  by (auto simp: run_task_def steps_ok_def closes_ok_def)

lemma steps_ok_iff: "steps_ok e t \<longleftrightarrow> (\<forall>err. \<not> step_error e t err)"
  by (auto simp: steps_ok_def step_error_def)

lemma pool_step_captures:
  assumes "w < length (workers st0)" "workers st0 ! w = Running t" "step_error e t err"
  shows "errChan (pool_step e w st0) = errChan st0 @ [err]"
    and "workers (pool_step e w st0) = (workers st0)[w := Ranging]"
    and "taskQueue (pool_step e w st0) = taskQueue st0"
proof -
  have "run_task e t = Captured err" using assms(3) by (simp add: run_task_Captured_iff)
  then have "pool_step e w st0 =
      st0\<lparr>errChan := errChan st0 @ [err], workers := (workers st0)[w := Ranging],
          processed := processed st0 @ [(t, Captured err)]\<rparr>"
    using assms(1,2) by (simp add: pool_step_def)
  then show "errChan (pool_step e w st0) = errChan st0 @ [err]"
    and "workers (pool_step e w st0) = (workers st0)[w := Ranging]"
    and "taskQueue (pool_step e w st0) = taskQueue st0"
    by simp_all
qed

lemma pool_step_receives:
  assumes "w < length (workers st0)" "workers st0 ! w = Ranging" "taskQueue st0 = t # rest"
  shows "workers (pool_step e w st0) = (workers st0)[w := Running t]"
    and "taskQueue (pool_step e w st0) = rest"
  using assms by (simp_all add: pool_step_def)

text \<open>
  Claim C2. Take a batch with at least one file whose destination directory could be
  created, run by at least one worker, and any interleaving of the workers after which
  every worker has left its loop.

  A task whose creation of the output directory, opening of the input file, creation of
  the output file or conversion fails has the error of that step as its result, and no
  other task has. The worker that holds such a task sends the error to the error channel
  and is back at the head of its loop, where it receives the next task of the queue.

  The error channel holds the errors of the tasks processed, in the order of processing,
  and \<^verbatim>\<open>convert\<close> returns the first of them, or no error when there is none.

  When no closing of a file fails, every task has been processed: a task with a failing
  step is recorded with its error, which is in the error channel; a task whose steps
  succeed has completed; \<^verbatim>\<open>convert\<close> returns no error exactly when the steps of every
  task succeed, and otherwise the error of a step of some task. When one task fails at one
  of the four steps and the others succeed, \<^verbatim>\<open>convert\<close> returns the error of that task,
  and each of the other tasks has completed.
\<close>

theorem convert_collects_errors:
  assumes ret: "convert e n toDir (Inr files) sched = Some res"
    and files: "files \<noteq> []" and root: "MkdirAll e toDir" and n: "0 < n"
  shows "errChan (pool_run e n (make_tasks e files) sched) =
           captured (processed (pool_run e n (make_tasks e files) sched)) \<and>
         (\<forall>p \<in> set (processed (pool_run e n (make_tasks e files) sched)).
            snd p = run_task e (fst p)) \<and>
         res = (case errChan (pool_run e n (make_tasks e files) sched) of
                  [] \<Rightarrow> None | err # rest \<Rightarrow> Some err) \<and>
         (\<forall>t err. run_task e t = Captured err \<longleftrightarrow> step_error e t err) \<and>
         (\<forall>t. run_task e t = Completed \<longleftrightarrow> steps_ok e t \<and> closes_ok e t) \<and>
         (\<forall>st0 w t err.
            w < length (workers st0) \<and> workers st0 ! w = Running t \<and> step_error e t err \<longrightarrow>
            errChan (pool_step e w st0) = errChan st0 @ [err] \<and>
            workers (pool_step e w st0) = (workers st0)[w := Ranging] \<and>
            taskQueue (pool_step e w st0) = taskQueue st0) \<and>
         (\<forall>st0 w t rest.
            w < length (workers st0) \<and> workers st0 ! w = Ranging \<and> taskQueue st0 = t # rest \<longrightarrow>
            workers (pool_step e w st0) = (workers st0)[w := Running t] \<and>
            taskQueue (pool_step e w st0) = rest) \<and>
         (\<forall>t r err.
            (t, r) \<in> set (processed (pool_run e n (make_tasks e files) sched)) \<and>
            step_error e t err \<longrightarrow>
            r = Captured err \<and> err \<in> set (errChan (pool_run e n (make_tasks e files) sched))) \<and>
         ((\<forall>t \<in> set (make_tasks e files). run_task e t \<noteq> Returned) \<longrightarrow>
            set (processed (pool_run e n (make_tasks e files) sched)) =
              (\<lambda>t. (t, run_task e t)) ` set (make_tasks e files) \<and>
            length (processed (pool_run e n (make_tasks e files) sched)) = length files \<and>
            (res = None \<longleftrightarrow> (\<forall>t \<in> set (make_tasks e files). run_task e t = Completed))) \<and>
         ((\<forall>t \<in> set (make_tasks e files). closes_ok e t) \<longrightarrow>
            (\<forall>t \<in> set (make_tasks e files). \<forall>err. step_error e t err \<longrightarrow>
               (t, Captured err) \<in> set (processed (pool_run e n (make_tasks e files) sched)) \<and>
               err \<in> set (errChan (pool_run e n (make_tasks e files) sched))) \<and>
            (\<forall>t \<in> set (make_tasks e files). steps_ok e t \<longrightarrow>
               (t, Completed) \<in> set (processed (pool_run e n (make_tasks e files) sched))) \<and>
            (res = None \<longleftrightarrow> (\<forall>t \<in> set (make_tasks e files). steps_ok e t)) \<and>
            (\<forall>err. res = Some err \<longrightarrow>
               (\<exists>t \<in> set (make_tasks e files). step_error e t err))) \<and>
         ((\<forall>t \<in> set (make_tasks e files). steps_ok e t \<and> closes_ok e t) \<longrightarrow> res = None) \<and>
         (\<forall>t0 err0. t0 \<in> set (make_tasks e files) \<and> step_error e t0 err0 \<and>
              (\<forall>t \<in> set (make_tasks e files). t \<noteq> t0 \<longrightarrow> steps_ok e t \<and> closes_ok e t) \<longrightarrow>
            res = Some err0 \<and>
            (\<forall>t \<in> set (make_tasks e files). t \<noteq> t0 \<longrightarrow>
               (t, Completed) \<in> set (processed (pool_run e n (make_tasks e files) sched))))"
proof -
  let ?tasks = "make_tasks e files"
  let ?st = "pool_run e n ?tasks sched"
  note log = pool_log_run [of e n ?tasks sched]
  have ec: "errChan ?st = captured (processed ?st)" using log by (rule conjunct1)
  have pr: "\<forall>p \<in> set (processed ?st). snd p = run_task e (fst p)" using log by (rule conjunct2)
  have res: "res = (case errChan ?st of [] \<Rightarrow> None | err # rest \<Rightarrow> Some err)"
    by (rule convert_Some(2) [OF ret files root])
  have k1: "\<forall>t err. run_task e t = Captured err \<longleftrightarrow> step_error e t err"
    by (simp add: run_task_Captured_iff)
  have k2: "\<forall>t. run_task e t = Completed \<longleftrightarrow> steps_ok e t \<and> closes_ok e t"
    by (simp add: run_task_Completed_iff)
  have k3: "\<forall>st0 w t err.
            w < length (workers st0) \<and> workers st0 ! w = Running t \<and> step_error e t err \<longrightarrow>
            errChan (pool_step e w st0) = errChan st0 @ [err] \<and>
            workers (pool_step e w st0) = (workers st0)[w := Ranging] \<and>
            taskQueue (pool_step e w st0) = taskQueue st0"
    using pool_step_captures by blast
  have k4: "\<forall>st0 w t rest.
            w < length (workers st0) \<and> workers st0 ! w = Ranging \<and> taskQueue st0 = t # rest \<longrightarrow>
            workers (pool_step e w st0) = (workers st0)[w := Running t] \<and>
            taskQueue (pool_step e w st0) = rest"
    using pool_step_receives by blast
  have cap: "r = Captured err \<and> err \<in> set (errChan ?st)"
    if h: "(t, r) \<in> set (processed ?st)" "step_error e t err" for t r err
  proof
    have "snd (t, r) = run_task e (fst (t, r))" using pr h(1) by blast
    then show r: "r = Captured err" using h(2) by (simp add: run_task_Captured_iff)
    have "(t, Captured err) \<in> set (processed ?st)" using h(1) r by simp
    then show "err \<in> set (errChan ?st)" unfolding ec set_captured by blast
  qed
  have k5: "\<forall>t r err. (t, r) \<in> set (processed ?st) \<and> step_error e t err \<longrightarrow>
            r = Captured err \<and> err \<in> set (errChan ?st)"
    using cap by blast
  have full: "set (processed ?st) = (\<lambda>t. (t, run_task e t)) ` set ?tasks \<and>
      length (processed ?st) = length files \<and>
      (res = None \<longleftrightarrow> (\<forall>t \<in> set ?tasks. run_task e t = Completed)) \<and>
      (\<forall>t0 err0. t0 \<in> set ?tasks \<and> run_task e t0 = Captured err0 \<and>
              (\<forall>t \<in> set ?tasks. t \<noteq> t0 \<longrightarrow> run_task e t = Completed) \<longrightarrow>
            res = Some err0 \<and>
            (\<forall>t \<in> set ?tasks. t \<noteq> t0 \<longrightarrow> (t, Completed) \<in> set (processed ?st)))"
    if noret: "\<forall>t \<in> set ?tasks. run_task e t \<noteq> Returned"
    using convert_without_close_failure [OF ret files root n noret] by blast
  have k6: "(\<forall>t \<in> set ?tasks. run_task e t \<noteq> Returned) \<longrightarrow>
            set (processed ?st) = (\<lambda>t. (t, run_task e t)) ` set ?tasks \<and>
            length (processed ?st) = length files \<and>
            (res = None \<longleftrightarrow> (\<forall>t \<in> set ?tasks. run_task e t = Completed))"
    using full by blast
  have k7: "(\<forall>t \<in> set ?tasks. \<forall>err. step_error e t err \<longrightarrow>
               (t, Captured err) \<in> set (processed ?st) \<and> err \<in> set (errChan ?st)) \<and>
            (\<forall>t \<in> set ?tasks. steps_ok e t \<longrightarrow> (t, Completed) \<in> set (processed ?st)) \<and>
            (res = None \<longleftrightarrow> (\<forall>t \<in> set ?tasks. steps_ok e t)) \<and>
            (\<forall>err. res = Some err \<longrightarrow> (\<exists>t \<in> set ?tasks. step_error e t err))"
    if cl: "\<forall>t \<in> set ?tasks. closes_ok e t"
  proof -
    have noret: "\<forall>t \<in> set ?tasks. run_task e t \<noteq> Returned"
      using cl by (simp add: run_task_Returned_iff)
    note f = full [OF noret]
    have sets: "set (processed ?st) = (\<lambda>t. (t, run_task e t)) ` set ?tasks"
      using f by (rule conjunct1)
    have none: "res = None \<longleftrightarrow> (\<forall>t \<in> set ?tasks. run_task e t = Completed)"
      using f by blast
    have inp: "(t, run_task e t) \<in> set (processed ?st)" if "t \<in> set ?tasks" for t
      unfolding sets using that by (rule imageI)
    have a: "\<forall>t \<in> set ?tasks. \<forall>err. step_error e t err \<longrightarrow>
               (t, Captured err) \<in> set (processed ?st) \<and> err \<in> set (errChan ?st)"
    proof (intro ballI allI impI)
      fix t err assume t: "t \<in> set ?tasks" and se: "step_error e t err"
      have "run_task e t = Captured err" using se by (simp add: run_task_Captured_iff)
      then have m: "(t, Captured err) \<in> set (processed ?st)" using inp [OF t] by simp
      then have "err \<in> set (errChan ?st)" unfolding ec set_captured by blast
      then show "(t, Captured err) \<in> set (processed ?st) \<and> err \<in> set (errChan ?st)"
        using m by simp
    qed
    have b: "\<forall>t \<in> set ?tasks. steps_ok e t \<longrightarrow> (t, Completed) \<in> set (processed ?st)"
    proof (intro ballI impI)
      fix t assume t: "t \<in> set ?tasks" and ok: "steps_ok e t"
      have "run_task e t = Completed" using ok cl t by (simp add: run_task_Completed_iff)
      then show "(t, Completed) \<in> set (processed ?st)" using inp [OF t] by simp
    qed
    have c: "res = None \<longleftrightarrow> (\<forall>t \<in> set ?tasks. steps_ok e t)"
      unfolding none using cl by (simp add: run_task_Completed_iff)
    have d: "\<forall>err. res = Some err \<longrightarrow> (\<exists>t \<in> set ?tasks. step_error e t err)"
    proof (intro allI impI)
      fix err assume r: "res = Some err"
      then obtain rest where "errChan ?st = err # rest"
        unfolding res by (cases "errChan ?st") simp_all
      then have "err \<in> set (errChan ?st)" by simp
      then have "\<exists>t \<in> set ?tasks. run_task e t = Captured err"
        unfolding errChan_mem [OF sets ec] .
      then show "\<exists>t \<in> set ?tasks. step_error e t err"
        by (simp add: run_task_Captured_iff)
    qed
    show ?thesis by (intro conjI) (rule a, rule b, rule c, rule d)
  qed
  have k7': "(\<forall>t \<in> set ?tasks. closes_ok e t) \<longrightarrow>
            (\<forall>t \<in> set ?tasks. \<forall>err. step_error e t err \<longrightarrow>
               (t, Captured err) \<in> set (processed ?st) \<and> err \<in> set (errChan ?st)) \<and>
            (\<forall>t \<in> set ?tasks. steps_ok e t \<longrightarrow> (t, Completed) \<in> set (processed ?st)) \<and>
            (res = None \<longleftrightarrow> (\<forall>t \<in> set ?tasks. steps_ok e t)) \<and>
            (\<forall>err. res = Some err \<longrightarrow> (\<exists>t \<in> set ?tasks. step_error e t err))"
    by (rule impI) (rule k7)
  have k8: "(\<forall>t \<in> set ?tasks. steps_ok e t \<and> closes_ok e t) \<longrightarrow> res = None"
  proof
    assume all: "\<forall>t \<in> set ?tasks. steps_ok e t \<and> closes_ok e t"
    then have cl: "\<forall>t \<in> set ?tasks. closes_ok e t" by blast
    have "res = None \<longleftrightarrow> (\<forall>t \<in> set ?tasks. steps_ok e t)"
      using k7 [OF cl] by blast
    then show "res = None" using all by blast
  qed
  have k9: "\<forall>t0 err0. t0 \<in> set ?tasks \<and> step_error e t0 err0 \<and>
              (\<forall>t \<in> set ?tasks. t \<noteq> t0 \<longrightarrow> steps_ok e t \<and> closes_ok e t) \<longrightarrow>
            res = Some err0 \<and>
            (\<forall>t \<in> set ?tasks. t \<noteq> t0 \<longrightarrow> (t, Completed) \<in> set (processed ?st))"
  proof (intro allI impI)
    fix t0 err0
    assume h: "t0 \<in> set ?tasks \<and> step_error e t0 err0 \<and>
              (\<forall>t \<in> set ?tasks. t \<noteq> t0 \<longrightarrow> steps_ok e t \<and> closes_ok e t)"
    have h1: "t0 \<in> set ?tasks" and h2: "run_task e t0 = Captured err0"
      using h by (simp_all add: run_task_Captured_iff)
    have h3: "\<forall>t \<in> set ?tasks. t \<noteq> t0 \<longrightarrow> run_task e t = Completed"
      using h by (simp add: run_task_Completed_iff)
    have noret: "\<forall>t \<in> set ?tasks. run_task e t \<noteq> Returned"
    proof
      fix t assume t: "t \<in> set ?tasks"
      show "run_task e t \<noteq> Returned"
      proof (cases "t = t0")
        case True
        then show ?thesis using h2 by simp
      next
        case False
        then have "run_task e t = Completed" using h3 t by blast
        then show ?thesis by simp
      qed
    qed
    have "t0 \<in> set ?tasks \<and> run_task e t0 = Captured err0 \<and>
          (\<forall>t \<in> set ?tasks. t \<noteq> t0 \<longrightarrow> run_task e t = Completed)"
      using h1 h2 h3 by blast
    with full [OF noret]
    show "res = Some err0 \<and>
            (\<forall>t \<in> set ?tasks. t \<noteq> t0 \<longrightarrow> (t, Completed) \<in> set (processed ?st))"
      by blast
  qed
  show ?thesis
    by (intro conjI)
       (rule ec, rule pr, rule res, rule k1, rule k2, rule k3, rule k4, rule k5, rule k6,
        rule k7', rule k8, rule k9)
qed

text \<open>
  The test environment, five files and two workers: every step fails once, each failure is
  in the error channel, the file \<open>f\<close> is converted, and \<^verbatim>\<open>convert\<close> returns the first
  error sent. With one worker the outcome is the same: the worker goes on after each of
  the four failures.
\<close>

theorem convert_collects_errors_witness:
  "convert test_env 2 ''out'' (Inr [''s/a'', ''b'', ''c'', ''d'', ''f''])
       [0, 1, 0, 1, 0, 1, 0, 1, 0, 0, 0, 1]
     = Some (Some (CreateOutputDirFailed ''out/s'')) \<and>
   errChan (pool_run test_env 2 (make_tasks test_env [''s/a'', ''b'', ''c'', ''d'', ''f''])
              [0, 1, 0, 1, 0, 1, 0, 1, 0, 0, 0, 1])
     = captured (processed (pool_run test_env 2
              (make_tasks test_env [''s/a'', ''b'', ''c'', ''d'', ''f''])
              [0, 1, 0, 1, 0, 1, 0, 1, 0, 0, 0, 1])) \<and>
   errChan (pool_run test_env 2 (make_tasks test_env [''s/a'', ''b'', ''c'', ''d'', ''f''])
              [0, 1, 0, 1, 0, 1, 0, 1, 0, 0, 0, 1])
     = [CreateOutputDirFailed ''out/s'', OpenInputFailed ''in/b'',
        CreateOutputFailed ''out/c'', ConvertFailed ''d''] \<and>
   map (\<lambda>p. (relPath (fst p), snd p))
       (processed (pool_run test_env 2
              (make_tasks test_env [''s/a'', ''b'', ''c'', ''d'', ''f''])
              [0, 1, 0, 1, 0, 1, 0, 1, 0, 0, 0, 1]))
     = [(''s/a'', Captured (CreateOutputDirFailed ''out/s'')),
        (''b'', Captured (OpenInputFailed ''in/b'')),
        (''c'', Captured (CreateOutputFailed ''out/c'')),
        (''d'', Captured (ConvertFailed ''d'')),
        (''f'', Completed)] \<and>
   convert test_env 1 ''out'' (Inr [''s/a'', ''b'', ''c'', ''d'', ''f'']) (replicate 11 0)
     = Some (Some (CreateOutputDirFailed ''out/s'')) \<and>
   map (\<lambda>p. (relPath (fst p), snd p))
       (processed (pool_run test_env 1
              (make_tasks test_env [''s/a'', ''b'', ''c'', ''d'', ''f'']) (replicate 11 0)))
     = [(''s/a'', Captured (CreateOutputDirFailed ''out/s'')),
        (''b'', Captured (OpenInputFailed ''in/b'')),
        (''c'', Captured (CreateOutputFailed ''out/c'')),
        (''d'', Captured (ConvertFailed ''d'')),
        (''f'', Completed)]"
proof -
  let ?files = "[''s/a'', ''b'', ''c'', ''d'', ''f'']"
  let ?sched = "[0, 1, 0, 1, 0, 1, 0, 1, 0, 0, 0, 1] :: nat list"
  let ?log = "[(''s/a'', Captured (CreateOutputDirFailed ''out/s'')),
        (''b'', Captured (OpenInputFailed ''in/b'')),
        (''c'', Captured (CreateOutputFailed ''out/c'')),
        (''d'', Captured (ConvertFailed ''d'')),
        (''f'', Completed)]"
  have ev: "convert test_env 2 ''out'' (Inr ?files) ?sched
              = Some (Some (CreateOutputDirFailed ''out/s''))"
    by code_simp
  have root: "MkdirAll test_env ''out''" by (simp add: test_env_def)
  have files: "?files \<noteq> []" by simp
  have n: "0 < (2 :: nat)" by simp
  have ch: "errChan (pool_run test_env 2 (make_tasks test_env ?files) ?sched)
     = [CreateOutputDirFailed ''out/s'', OpenInputFailed ''in/b'',
        CreateOutputFailed ''out/c'', ConvertFailed ''d'']"
    by code_simp
  have pr: "map (\<lambda>p. (relPath (fst p), snd p))
                (processed (pool_run test_env 2 (make_tasks test_env ?files) ?sched)) = ?log"
    by code_simp
  have ev1: "convert test_env 1 ''out'' (Inr ?files) (replicate 11 0)
              = Some (Some (CreateOutputDirFailed ''out/s''))"
    by code_simp
  have pr1: "map (\<lambda>p. (relPath (fst p), snd p))
                (processed (pool_run test_env 1 (make_tasks test_env ?files) (replicate 11 0)))
              = ?log"
    by code_simp
  note main = convert_collects_errors [OF ev files root n]
  have ec: "errChan (pool_run test_env 2 (make_tasks test_env ?files) ?sched)
     = captured (processed (pool_run test_env 2 (make_tasks test_env ?files) ?sched))"
    using main by (rule conjunct1)
  show ?thesis by (intro conjI) (rule ev, rule ec, rule ch, rule pr, rule ev1, rule pr1)
qed

end
